theory Spec2Isabelle
  imports Complex_Main "HOL-Library.Log_Nat"
begin

section \<open>Python numbers\<close>

text \<open>
  The script \<^verbatim>\<open>scripts/create_favicons.py\<close> computes with Python \<^verbatim>\<open>int\<close> (unbounded,
  modelled by \<^typ>\<open>int\<close>) and Python \<^verbatim>\<open>float\<close> (IEEE 754 binary64).  A float is modelled by
  the real number it denotes; every float operation computes the exact result and rounds
  it to the nearest number with a 53 bit significand, ties to the even significand.  The
  exponent range is not bounded in the model: the script never comes near the largest or
  the smallest binary64 number.
\<close>

datatype py_error =
  ZeroDivisionError
  | FileExistsError
  | NotADirectoryError
  | FileNotFoundError
  | IsADirectoryError
  | UnidentifiedImageError

type_synonym float = real

definition round_half_even :: "real \<Rightarrow> int" where
  "round_half_even q =
     (let f = \<lfloor>q\<rfloor>; r = q - of_int f
      in if r < 1 / 2 then f else if 1 / 2 < r then f + 1 else if even f then f else f + 1)"

text \<open>The exponent \<open>e\<close> with \<open>2\<^sup>e \<le> x < 2\<^sup>e\<^sup>+\<^sup>1\<close>, for a positive \<open>x\<close>.\<close>

definition binade :: "real \<Rightarrow> int" where
  "binade x = (if 1 \<le> x then bitlen \<lfloor>x\<rfloor> - 1 else - bitlen (\<lceil>1 / x\<rceil> - 1))"

text \<open>Rounding to binary64: the spacing of the floats around \<open>x\<close> is \<open>2\<^sup>e\<^sup>-\<^sup>5\<^sup>2\<close>.\<close>

definition fl :: "real \<Rightarrow> float" where
  "fl x =
     (if x = 0 then 0
      else let u = 2 powi (binade \<bar>x\<bar> - 52)
           in sgn x * of_int (round_half_even (\<bar>x\<bar> / u)) * u)"

definition float_of_int :: "int \<Rightarrow> float" where
  "float_of_int n = fl (of_int n)"

definition float_mul :: "float \<Rightarrow> float \<Rightarrow> float" where
  "float_mul a b = fl (a * b)"

definition float_add :: "float \<Rightarrow> float \<Rightarrow> float" where
  "float_add a b = fl (a + b)"

definition float_sub :: "float \<Rightarrow> float \<Rightarrow> float" where
  "float_sub a b = fl (a - b)"

text \<open>\<^verbatim>\<open>n * x\<close>, \<^verbatim>\<open>n - x\<close> and \<^verbatim>\<open>n + x\<close> with an int \<open>n\<close> and a float \<open>x\<close>: the int is converted first.\<close>

definition int_mul_float :: "int \<Rightarrow> float \<Rightarrow> float" where
  "int_mul_float n x = float_mul (float_of_int n) x"

definition int_sub_float :: "int \<Rightarrow> float \<Rightarrow> float" where
  "int_sub_float n x = float_sub (float_of_int n) x"

definition int_add_float :: "int \<Rightarrow> float \<Rightarrow> float" where
  "int_add_float n x = float_add (float_of_int n) x"

text \<open>\<^verbatim>\<open>a / b\<close> on two ints is the correctly rounded quotient, and raises when \<open>b\<close> is 0.\<close>

definition int_truediv :: "int \<Rightarrow> int \<Rightarrow> py_error + float" where
  "int_truediv a b = (if b = 0 then Inl ZeroDivisionError else Inr (fl (of_int a / of_int b)))"

text \<open>\<^verbatim>\<open>int(x)\<close> truncates towards zero.\<close>

definition py_int :: "float \<Rightarrow> int" where
  "py_int x = (if 0 \<le> x then \<lfloor>x\<rfloor> else \<lceil>x\<rceil>)"

section \<open>Colours and images\<close>

type_synonym rgb = "int \<times> int \<times> int"
type_synonym rgba = "int \<times> int \<times> int \<times> int"

definition red :: "rgb \<Rightarrow> int" where "red c = fst c"
definition green :: "rgb \<Rightarrow> int" where "green c = fst (snd c)"
definition blue :: "rgb \<Rightarrow> int" where "blue c = snd (snd c)"

definition colors :: "rgb list" where
  "colors = [(46, 227, 255), (0, 197, 161)]"

definition background :: rgb where
  "background = (5, 12, 26)"

text \<open>A colour given as a triple is opaque in an RGBA image.\<close>

definition opaque :: "rgb \<Rightarrow> rgba" where
  "opaque c = (red c, green c, blue c, 255)"

record image =
  width :: int
  height :: int
  pixel :: "int \<times> int \<Rightarrow> rgba"

definition in_canvas :: "image \<Rightarrow> int \<times> int \<Rightarrow> bool" where
  "in_canvas img p = (0 \<le> fst p \<and> fst p < width img \<and> 0 \<le> snd p \<and> snd p < height img)"

text \<open>\<^verbatim>\<open>Image.new("RGBA", (w, h), color)\<close>\<close>

definition new_image :: "int \<Rightarrow> int \<Rightarrow> rgb \<Rightarrow> image" where
  "new_image w h c = \<lparr>width = w, height = h, pixel = (\<lambda>p. opaque c)\<rparr>"

type_synonym box = "real \<times> real \<times> real \<times> real"

text \<open>
  The drawing primitives belong to the imaging library, not to this repository.  The
  library is a parameter of the model: which pixels a filled ellipse and an arc stroke
  cover, and what resizing an image gives.
\<close>

record pillow =
  ellipse_px :: "box \<Rightarrow> int \<times> int \<Rightarrow> bool"
  arc_px :: "box \<Rightarrow> real \<Rightarrow> real \<Rightarrow> int \<Rightarrow> int \<times> int \<Rightarrow> bool"
  resize_img :: "image \<Rightarrow> int \<times> int \<Rightarrow> image"

text \<open>Drawing overwrites the covered pixels of the canvas and leaves the others.\<close>

definition paint :: "image \<Rightarrow> (int \<times> int \<Rightarrow> bool) \<Rightarrow> rgba \<Rightarrow> image" where
  "paint img cover ink =
     img\<lparr>pixel := (\<lambda>p. if in_canvas img p \<and> cover p then ink else pixel img p)\<rparr>"

definition draw_ellipse :: "pillow \<Rightarrow> image \<Rightarrow> box \<Rightarrow> rgba \<Rightarrow> image" where
  "draw_ellipse L img b ink = paint img (ellipse_px L b) ink"

definition draw_arc :: "pillow \<Rightarrow> image \<Rightarrow> box \<Rightarrow> real \<Rightarrow> real \<Rightarrow> rgba \<Rightarrow> int \<Rightarrow> image" where
  "draw_arc L img b start stop ink w = paint img (arc_px L b start stop w) ink"

section \<open>The gradient renderer\<close>

text \<open>\<^verbatim>\<open>int(c0 * ratio + c1 * (1 - ratio))\<close>\<close>

definition blend :: "int \<Rightarrow> int \<Rightarrow> float \<Rightarrow> int" where
  "blend c0 c1 ratio =
     py_int (float_add (int_mul_float c0 ratio) (int_mul_float c1 (int_sub_float 1 ratio)))"

definition ring_ink :: "float \<Rightarrow> rgba" where
  "ring_ink ratio =
     (let r = blend (red (colors ! 0)) (red (colors ! 1)) ratio;
          g = blend (green (colors ! 0)) (green (colors ! 1)) ratio;
          b = blend (blue (colors ! 0)) (blue (colors ! 1)) ratio
      in (r, g, b, 255))"

definition disc_box :: "int \<Rightarrow> int \<Rightarrow> int \<Rightarrow> box" where
  "disc_box cx cy i = (of_int (cx - i), of_int (cy - i), of_int (cx + i), of_int (cy + i))"

text \<open>The loop \<^verbatim>\<open>for i in range(radius, 0, -1)\<close>, entered at \<open>i = radius\<close>.\<close>

function gradient_rings :: "pillow \<Rightarrow> int \<Rightarrow> int \<Rightarrow> int \<Rightarrow> int \<Rightarrow> image \<Rightarrow> py_error + image" where
  "gradient_rings L radius cx cy i img =
     (if i \<le> 0 then Inr img
      else case int_truediv i radius of
             Inl e \<Rightarrow> Inl e
           | Inr ratio \<Rightarrow>
               gradient_rings L radius cx cy (i - 1)
                 (draw_ellipse L img (disc_box cx cy i) (ring_ink ratio)))"
  by pat_completeness auto
termination
  by (relation "measure (\<lambda>(L, radius, cx, cy, i, img). nat i)") auto

declare gradient_rings.simps [simp del]

text \<open>\<^verbatim>\<open>int(size * 0.4)\<close>\<close>

definition gradient_radius :: "int \<Rightarrow> int" where
  "gradient_radius sz = py_int (int_mul_float sz (fl (4 / 10)))"

definition draw_circle_gradient :: "pillow \<Rightarrow> image \<Rightarrow> py_error + image \<times> int \<times> int \<times> int" where
  "draw_circle_gradient L img =
     (let sz = width img;
          cx = sz div 2;
          cy = cx;
          radius = gradient_radius sz
      in case gradient_rings L radius cx cy radius img of
           Inl e \<Rightarrow> Inl e
         | Inr img' \<Rightarrow> Inr (img', radius, cx, cy))"

section \<open>The accent renderer\<close>

text \<open>
  The stroke widths \<^verbatim>\<open>max(1, size // 16)\<close> and \<^verbatim>\<open>max(2, size // 12)\<close>, and the three bounding
  boxes
  \<^verbatim>\<open>[cx - radius * 0.7, cy - radius * 0.3, cx + radius * 0.7, cy + radius * 0.5]\<close>,
  \<^verbatim>\<open>[cx - radius * 0.6, cy - radius * 0.1, cx + radius * 0.6, cy + radius * 0.9]\<close> and
  \<^verbatim>\<open>[cx - highlight, cy - highlight * 0.6, cx - highlight * 0.2, cy]\<close> with
  \<^verbatim>\<open>highlight = int(radius * 0.25)\<close>.  A literal such as \<^verbatim>\<open>0.7\<close> is the float nearest to 7/10.
\<close>

definition accent_width1 :: "int \<Rightarrow> int" where
  "accent_width1 sz = max 1 (sz div 16)"

definition accent_width2 :: "int \<Rightarrow> int" where
  "accent_width2 sz = max 2 (sz div 12)"

definition arc1_box :: "int \<Rightarrow> int \<Rightarrow> int \<Rightarrow> box" where
  "arc1_box radius cx cy =
     (int_sub_float cx (int_mul_float radius (fl (7 / 10))),
      int_sub_float cy (int_mul_float radius (fl (3 / 10))),
      int_add_float cx (int_mul_float radius (fl (7 / 10))),
      int_add_float cy (int_mul_float radius (fl (5 / 10))))"

definition arc2_box :: "int \<Rightarrow> int \<Rightarrow> int \<Rightarrow> box" where
  "arc2_box radius cx cy =
     (int_sub_float cx (int_mul_float radius (fl (6 / 10))),
      int_sub_float cy (int_mul_float radius (fl (1 / 10))),
      int_add_float cx (int_mul_float radius (fl (6 / 10))),
      int_add_float cy (int_mul_float radius (fl (9 / 10))))"

definition highlight_box :: "int \<Rightarrow> int \<Rightarrow> int \<Rightarrow> box" where
  "highlight_box radius cx cy =
     (let highlight = py_int (int_mul_float radius (fl (25 / 100)))
      in (of_int (cx - highlight),
          int_sub_float cy (int_mul_float highlight (fl (6 / 10))),
          int_sub_float cx (int_mul_float highlight (fl (2 / 10))),
          of_int cy))"

definition draw_accent :: "pillow \<Rightarrow> image \<Rightarrow> int \<Rightarrow> int \<Rightarrow> int \<Rightarrow> int \<Rightarrow> image" where
  "draw_accent L img radius cx cy sz =
     (let w = accent_width1 sz;
          img1 = draw_arc L img (arc1_box radius cx cy) 200 340 (opaque (244, 251, 255)) w;
          img2 = draw_arc L img1 (arc2_box radius cx cy) 120 220 (opaque (18, 168, 195))
                   (accent_width2 sz)
      in draw_ellipse L img2 (highlight_box radius cx cy) (opaque (244, 251, 255)))"

section \<open>The gradient renderer in closed form\<close>

text \<open>
  The same loop as one pass over \<^verbatim>\<open>range(n, 0, -1)\<close>, without the error plumbing; the two
  are shown equal below.
\<close>

definition painted_rings :: "pillow \<Rightarrow> int \<Rightarrow> int \<Rightarrow> int \<Rightarrow> int \<Rightarrow> image \<Rightarrow> image" where
  "painted_rings L radius cx cy n img =
     foldl (\<lambda>canvas i. draw_ellipse L canvas (disc_box cx cy i)
                          (ring_ink (fl (of_int i / of_int radius))))
       img (rev [1..n])"

text \<open>
  The renderer as the specification words it: the radius is \<open>\<lfloor>0.4 \<times> size\<rfloor>\<close>, the ring index
  runs from the radius down to 1, every channel is
  \<open>trunc (colorA \<times> ratio + colorB \<times> (1 - ratio))\<close> in float arithmetic with
  \<open>ratio = i / radius\<close>, and each ring is an opaque filled disc of radius \<open>i\<close> about
  \<open>(size // 2, size // 2)\<close>.
\<close>

definition spec_ring_ink :: "int \<Rightarrow> int \<Rightarrow> rgba" where
  "spec_ring_ink i radius =
     (let ratio = fl (of_int i / of_int radius);
          channel = (\<lambda>colorA colorB.
             py_int (fl (fl (colorA * ratio) + fl (colorB * fl (1 - ratio)))))
      in (channel 46 0, channel 227 197, channel 255 161, 255))"

definition spec_gradient :: "pillow \<Rightarrow> image \<Rightarrow> image \<times> int \<times> int \<times> int" where
  "spec_gradient L img =
     (let sz = width img;
          radius = \<lfloor>0.4 * real_of_int sz\<rfloor>;
          c = sz div 2
      in (foldl (\<lambda>canvas i. draw_ellipse L canvas (disc_box c c i) (spec_ring_ink i radius))
            img (rev [1..radius]),
          radius, c, c))"

section \<open>The script\<close>

text \<open>
  The filesystem: a path is the list of its components, the root is the empty path.  A
  written file is recorded by what the library was asked to write: the image of a PNG,
  and for an icon bundle the image that was saved and the sizes that were requested.
  \<open>written\<close> lists the files in the order they were written.
\<close>

type_synonym path = "string list"

datatype contents = PNG image | ICO image "(int \<times> int) list"

datatype node = Dir | File contents

record world =
  nodes :: "path \<Rightarrow> node option"
  written :: "path list"

definition empty_world :: world where
  "empty_world = \<lparr>nodes = (\<lambda>p. None), written = []\<rparr>"

definition is_dir :: "world \<Rightarrow> path \<Rightarrow> bool" where
  "is_dir w p = (p = [] \<or> nodes w p = Some Dir)"

text \<open>\<^verbatim>\<open>Path.mkdir(parents=True, exist_ok=True)\<close>: every missing directory on the way is made.\<close>

fun mkdir_from :: "world \<Rightarrow> path \<Rightarrow> string list \<Rightarrow> py_error + world" where
  "mkdir_from w pre [] = Inr w"
| "mkdir_from w pre (c # cs) =
     (case nodes w (pre @ [c]) of
        None \<Rightarrow> mkdir_from (w\<lparr>nodes := (nodes w)(pre @ [c] \<mapsto> Dir)\<rparr>) (pre @ [c]) cs
      | Some Dir \<Rightarrow> mkdir_from w (pre @ [c]) cs
      | Some (File f) \<Rightarrow> Inl (if cs = [] then FileExistsError else NotADirectoryError))"

definition mkdir_parents_exist_ok :: "world \<Rightarrow> path \<Rightarrow> py_error + world" where
  "mkdir_parents_exist_ok w p = mkdir_from w [] p"

definition save_file :: "world \<Rightarrow> path \<Rightarrow> contents \<Rightarrow> py_error + world" where
  "save_file w p f =
     (if is_dir w (butlast p) then
        (case nodes w p of
           Some Dir \<Rightarrow> Inl IsADirectoryError
         | _ \<Rightarrow> Inr (w\<lparr>nodes := (nodes w)(p \<mapsto> File f), written := written w @ [p]\<rparr>))
      else if nodes w (butlast p) = None then Inl FileNotFoundError
      else Inl NotADirectoryError)"

text \<open>
  \<^verbatim>\<open>Image.open\<close>.  Reading an icon bundle back is not modelled: the script only reopens the
  PNG it has just written.
\<close>

definition open_image :: "world \<Rightarrow> path \<Rightarrow> py_error + image" where
  "open_image w p =
     (case nodes w p of
        None \<Rightarrow> Inl FileNotFoundError
      | Some Dir \<Rightarrow> Inl IsADirectoryError
      | Some (File (PNG img)) \<Rightarrow> Inr img
      | Some (File (ICO img szs)) \<Rightarrow> Inl UnidentifiedImageError)"

definition logo_dir :: path where
  "logo_dir = [''C:'', ''Projects'', ''CoralLedgerBlue'', ''src'', ''CoralLedger.Blue.Web'',
               ''wwwroot'', ''images'', ''logos'', ''favicons'']"

definition targets :: "(int \<times> string) list" where
  "targets = [(16, ''favicon-16x16.png''), (32, ''favicon-32x32.png''),
              (180, ''apple-touch-icon.png'')]"

text \<open>The body of the export loop up to the save.\<close>

definition render :: "pillow \<Rightarrow> int \<Rightarrow> py_error + image" where
  "render L sz =
     (let img = new_image sz sz background
      in case draw_circle_gradient L img of
           Inl e \<Rightarrow> Inl e
         | Inr (img', radius, cx, cy) \<Rightarrow> Inr (draw_accent L img' radius cx cy sz))"

fun export_loop :: "pillow \<Rightarrow> (int \<times> string) list \<Rightarrow> world \<Rightarrow> py_error + world" where
  "export_loop L [] w = Inr w"
| "export_loop L ((sz, filename) # rest) w =
     (case render L sz of
        Inl e \<Rightarrow> Inl e
      | Inr img \<Rightarrow>
          (case save_file w (logo_dir @ [filename]) (PNG img) of
             Inl e \<Rightarrow> Inl e
           | Inr w' \<Rightarrow> export_loop L rest w'))"

definition ico_sizes :: "(int \<times> int) list" where
  "ico_sizes = [(16, 16), (32, 32), (64, 64)]"

definition compose_ico :: "pillow \<Rightarrow> world \<Rightarrow> py_error + world" where
  "compose_ico L w =
     (case open_image w (logo_dir @ [''favicon-32x32.png'']) of
        Inl e \<Rightarrow> Inl e
      | Inr base \<Rightarrow>
          (let icons = map (resize_img L base) ico_sizes
           in save_file w (logo_dir @ [''favicon.ico'']) (ICO (icons ! 0) ico_sizes)))"

definition script :: "pillow \<Rightarrow> world \<Rightarrow> py_error + world" where
  "script L w =
     (case mkdir_parents_exist_ok w logo_dir of
        Inl e \<Rightarrow> Inl e
      | Inr w1 \<Rightarrow>
          (case export_loop L targets w1 of
             Inl e \<Rightarrow> Inl e
           | Inr w2 \<Rightarrow> compose_ico L w2))"

text \<open>What the loop body builds for a canvas of side \<open>sz\<close>, in closed form.\<close>

definition favicon_canvas :: "pillow \<Rightarrow> int \<Rightarrow> image" where
  "favicon_canvas L sz =
     draw_accent L
       (painted_rings L (gradient_radius sz) (sz div 2) (sz div 2) (gradient_radius sz)
          (new_image sz sz background))
       (gradient_radius sz) (sz div 2) (sz div 2) sz"

text \<open>The names that are files in a directory.\<close>

definition files_in :: "world \<Rightarrow> path \<Rightarrow> string set" where
  "files_in w d = {name. \<exists>f. nodes w (d @ [name]) = Some (File f)}"

section \<open>Assumptions on the imaging library\<close>

text \<open>
  The pixel with integer coordinates \<open>(x, y)\<close> lies in a bounding box, and in the closed
  ellipse inscribed in it.
\<close>

fun in_box :: "box \<Rightarrow> int \<times> int \<Rightarrow> bool" where
  "in_box (x0, y0, x1, y1) (x, y) =
     (x0 \<le> of_int x \<and> of_int x \<le> x1 \<and> y0 \<le> of_int y \<and> of_int y \<le> y1)"

fun in_ellipse :: "box \<Rightarrow> int \<times> int \<Rightarrow> bool" where
  "in_ellipse (x0, y0, x1, y1) (x, y) =
     (in_box (x0, y0, x1, y1) (x, y) \<and>
      ((2 * of_int x - x0 - x1) * (y1 - y0))\<^sup>2 + ((2 * of_int y - y0 - y1) * (x1 - x0))\<^sup>2
        \<le> ((x1 - x0) * (y1 - y0))\<^sup>2)"




text \<open>
  A reference library, to show that the assumptions can be met and to compute examples:
  a filled ellipse is the inscribed closed ellipse, an arc stroke is the band of width
  \<open>w\<close> inside it (every angle), resizing takes the nearest pixel.
\<close>

definition inset :: "box \<Rightarrow> int \<Rightarrow> box" where
  "inset b w =
     (case b of (x0, y0, x1, y1) \<Rightarrow> (x0 + of_int w, y0 + of_int w, x1 - of_int w, y1 - of_int w))"

definition nearest_resize :: "image \<Rightarrow> int \<times> int \<Rightarrow> image" where
  "nearest_resize img s =
     \<lparr>width = fst s, height = snd s,
      pixel = (\<lambda>p. pixel img (fst p * width img div fst s, snd p * height img div snd s))\<rparr>"

definition reference_pillow :: pillow where
  "reference_pillow =
     \<lparr>ellipse_px = in_ellipse,
      arc_px = (\<lambda>b start stop w p. in_ellipse b p \<and> \<not> in_ellipse (inset b w) p),
      resize_img = nearest_resize\<rparr>"

text \<open>
  What the library's icon writer stores when one image is saved with a list of sizes, as
  its documentation has it: the sizes bigger than the image (or than 256) are ignored, and
  the image is scaled to each size that is kept.
\<close>

definition ico_frames :: "pillow \<Rightarrow> image \<Rightarrow> (int \<times> int) list \<Rightarrow> image list" where
  "ico_frames L im szs =
     map (\<lambda>s. if (width im, height im) = s then im else resize_img L im s)
       (filter (\<lambda>s. fst s \<le> width im \<and> snd s \<le> height im \<and> fst s \<le> 256 \<and> snd s \<le> 256) szs)"


text \<open>A filesystem in which the output directory exists already and holds one other file.\<close>

definition world_with_other_file :: world where
  "world_with_other_file =
     \<lparr>nodes = (\<lambda>p. if p = logo_dir @ [''logo.svg''] then Some (File (PNG (new_image 1 1 background)))
                   else if p \<noteq> [] \<and> p = take (length p) logo_dir then Some Dir
                   else None),
      written = []\<rparr>"

section \<open>Evaluating floats\<close>

lemma bitlen_One: "bitlen 1 = 1"
  by (subst compute_bitlen) simp

lemma bitlen_Bit0: "bitlen (numeral (Num.Bit0 n)) = bitlen (numeral n) + 1"
  by (subst compute_bitlen) simp

lemma bitlen_Bit1: "bitlen (numeral (Num.Bit1 n)) = bitlen (numeral n) + 1"
  by (subst compute_bitlen) simp

lemmas fl_eval =
  fl_def binade_def round_half_even_def Let_def bitlen_One bitlen_Bit0 bitlen_Bit1

lemmas float_eval =
  float_of_int_def float_mul_def float_add_def float_sub_def int_mul_float_def
  int_sub_float_def int_add_float_def py_int_def fl_eval

lemma fl_0_4: "fl (4 / 10) = 3602879701896397 / 9007199254740992"
  by (simp add: fl_eval)

lemma gradient_radius_16: "gradient_radius 16 = 6"
  by (simp add: gradient_radius_def fl_0_4) (simp add: float_eval)

lemma gradient_radius_32: "gradient_radius 32 = 12"
  by (simp add: gradient_radius_def fl_0_4) (simp add: float_eval)

lemma gradient_radius_180: "gradient_radius 180 = 72"
  by (simp add: gradient_radius_def fl_0_4) (simp add: float_eval)

section \<open>Properties of float rounding\<close>

lemma binade_ge1:
  assumes "1 \<le> x"
  shows "2 powi (binade x) \<le> x \<and> x < 2 powi (binade x + 1)"
proof -
  from assms have fx: "0 < \<lfloor>x\<rfloor>" by linarith
  define k where "k = nat (bitlen \<lfloor>x\<rfloor> - 1)"
  have b1: "1 \<le> bitlen \<lfloor>x\<rfloor>" using fx by (simp add: bitlen_alt_def)
  then have bk: "bitlen \<lfloor>x\<rfloor> = int k + 1" by (simp add: k_def)
  have "2 ^ nat (int k + 1 - 1) \<le> \<lfloor>x\<rfloor> \<and> \<lfloor>x\<rfloor> < 2 ^ nat (int k + 1)"
    using bitlen_bounds [OF fx] unfolding bk .
  then have lo: "2 ^ k \<le> \<lfloor>x\<rfloor>" and hi: "\<lfloor>x\<rfloor> < 2 ^ Suc k"
    by (simp_all add: nat_add_distrib)
  from lo have "real_of_int (2 ^ k) \<le> real_of_int \<lfloor>x\<rfloor>" by (simp only: of_int_le_iff)
  then have "(2::real) ^ k \<le> real_of_int \<lfloor>x\<rfloor>" by simp
  then have l: "2 ^ k \<le> x" by linarith
  from hi have "\<lfloor>x\<rfloor> + 1 \<le> 2 ^ Suc k" by simp
  then have "real_of_int (\<lfloor>x\<rfloor> + 1) \<le> real_of_int (2 ^ Suc k)" by (simp only: of_int_le_iff)
  then have "real_of_int \<lfloor>x\<rfloor> + 1 \<le> (2::real) ^ Suc k" by simp
  then have h: "x < 2 ^ Suc k" by linarith
  have e: "binade x = int k" using assms by (simp add: binade_def bk)
  have e1: "binade x + 1 = int (Suc k)" using e by simp
  show ?thesis unfolding e1 unfolding e using l h by (simp only: power_int_of_nat)
qed

lemma binade_lt1:
  assumes "0 < x" "x < 1"
  shows "2 powi (binade x) \<le> x \<and> x < 2 powi (binade x + 1)"
proof -
  define m where "m = \<lceil>1 / x\<rceil> - 1"
  have y1: "1 < 1 / x" using assms by simp
  then have m1: "0 < m" unfolding m_def by linarith
  define k where "k = nat (bitlen m - 1)"
  have b1: "1 \<le> bitlen m" using m1 by (simp add: bitlen_alt_def)
  then have bk: "bitlen m = int k + 1" by (simp add: k_def)
  have "2 ^ nat (int k + 1 - 1) \<le> m \<and> m < 2 ^ nat (int k + 1)"
    using bitlen_bounds [OF m1] unfolding bk .
  then have lo: "2 ^ k \<le> m" and hi: "m < 2 ^ Suc k"
    by (simp_all add: nat_add_distrib)
  have "real_of_int m < 1 / x" unfolding m_def by linarith
  moreover from lo have "real_of_int (2 ^ k) \<le> real_of_int m" by (simp only: of_int_le_iff)
  then have "(2::real) ^ k \<le> real_of_int m" by simp
  ultimately have "2 ^ k < 1 / x" by linarith
  then have h: "x < 1 / 2 ^ k" using assms(1)
    by (simp add: field_simps)
  from hi have "m + 1 \<le> 2 ^ Suc k" by simp
  then have "real_of_int (m + 1) \<le> real_of_int (2 ^ Suc k)" by (simp only: of_int_le_iff)
  then have "real_of_int m + 1 \<le> (2::real) ^ Suc k" by simp
  moreover have "1 / x \<le> real_of_int m + 1" unfolding m_def by simp
  ultimately have "1 / x \<le> 2 ^ Suc k" by linarith
  then have l: "1 / 2 ^ Suc k \<le> x" using assms(1)
    by (simp add: field_simps)
  have e: "binade x = - int (Suc k)" using assms by (simp add: binade_def m_def [symmetric] bk)
  have e1: "binade x + 1 = - int k" using e by simp
  have p: "(2::real) powi (- int n) = 1 / 2 ^ n" for n
    by (simp add: power_int_minus field_simps)
  show ?thesis unfolding e1 unfolding e p using l h by simp
qed

lemma binade_bounds:
  assumes "0 < x"
  shows "2 powi (binade x) \<le> x" and "x < 2 powi (binade x + 1)"
  using binade_ge1 [of x] binade_lt1 [of x] assms by (cases "1 \<le> x"; simp)+

lemma round_half_even_of_int: "round_half_even (of_int n) = n"
  by (simp add: round_half_even_def)

lemma round_half_even_err: "\<bar>of_int (round_half_even q) - q\<bar> \<le> 1 / 2"
  unfolding round_half_even_def Let_def
  by (auto simp: abs_le_iff)

lemma round_half_even_mono:
  assumes "a \<le> b"
  shows "round_half_even a \<le> round_half_even b"
proof (cases "\<lfloor>a\<rfloor> = \<lfloor>b\<rfloor>")
  case True
  then show ?thesis using assms
    unfolding round_half_even_def Let_def by auto
next
  case False
  then have "\<lfloor>a\<rfloor> + 1 \<le> \<lfloor>b\<rfloor>" using assms floor_mono [OF assms] by linarith
  moreover have "round_half_even a \<le> \<lfloor>a\<rfloor> + 1" unfolding round_half_even_def Let_def by auto
  moreover have "\<lfloor>b\<rfloor> \<le> round_half_even b" unfolding round_half_even_def Let_def by auto
  ultimately show ?thesis by linarith
qed


lemma fl_pos:
  "0 < x \<Longrightarrow> fl x = of_int (round_half_even (x / 2 powi (binade x - 52))) * 2 powi (binade x - 52)"
  by (simp add: fl_def Let_def)

lemma fl_minus: "fl (- x) = - fl x"
  by (simp add: fl_def Let_def sgn_minus)

lemma fl_bounds:
  assumes "0 < x"
  shows "2 powi (binade x) \<le> fl x" and "fl x \<le> 2 powi (binade x + 1)"
proof -
  define u :: real where "u = 2 powi (binade x - 52)"
  have u0: "0 < u" by (simp add: u_def)
  have lo: "2 powi (binade x) = of_int (2 ^ 52) * u"
    by (simp add: u_def power_int_diff)
  have hi: "2 powi (binade x + 1) = of_int (2 ^ 53) * u"
    by (simp add: u_def power_int_diff power_int_add)
  have "of_int (2 ^ 52) \<le> x / u"
    using binade_bounds(1) [OF assms] u0 unfolding lo by (simp add: field_simps)
  from round_half_even_mono [OF this]
  have a: "2 ^ 52 \<le> round_half_even (x / u)" by (simp only: round_half_even_of_int)
  have "x / u \<le> of_int (2 ^ 53)"
    using binade_bounds(2) [OF assms] u0 unfolding hi by (simp add: field_simps)
  from round_half_even_mono [OF this]
  have b: "round_half_even (x / u) \<le> 2 ^ 53" by (simp only: round_half_even_of_int)
  have f: "fl x = of_int (round_half_even (x / u)) * u"
    using assms by (simp add: fl_pos u_def)
  from a have "real_of_int (2 ^ 52) \<le> real_of_int (round_half_even (x / u))"
    by (simp only: of_int_le_iff)
  then show "2 powi (binade x) \<le> fl x"
    unfolding lo f using u0 by (simp only: mult_le_cancel_right_pos)
  from b have "real_of_int (round_half_even (x / u)) \<le> real_of_int (2 ^ 53)"
    by (simp only: of_int_le_iff)
  then show "fl x \<le> 2 powi (binade x + 1)"
    unfolding hi f using u0 by (simp only: mult_le_cancel_right_pos)
qed

lemma binade_mono:
  assumes "0 < x" "x \<le> y"
  shows "binade x \<le> binade y"
proof (rule ccontr)
  assume "\<not> binade x \<le> binade y"
  then have "binade y + 1 \<le> binade x" by simp
  then have "(2::real) powi (binade y + 1) \<le> 2 powi (binade x)"
    by (simp add: power_int_increasing)
  moreover have "y < 2 powi (binade y + 1)" using binade_bounds(2) [of y] assms by simp
  moreover have "2 powi (binade x) \<le> x" using binade_bounds(1) [OF assms(1)] .
  ultimately show False using assms(2) by linarith
qed

lemma fl_mono_pos:
  assumes "0 < x" "x \<le> y"
  shows "fl x \<le> fl y"
proof (cases "binade x = binade y")
  case True
  have y: "0 < y" using assms by simp
  define u :: real where "u = 2 powi (binade y - 52)"
  have u0: "0 < u" by (simp add: u_def)
  have "x / u \<le> y / u" using assms(2) u0 by (simp add: divide_right_mono)
  from round_half_even_mono [OF this]
  have "real_of_int (round_half_even (x / u)) \<le> real_of_int (round_half_even (y / u))"
    by (simp only: of_int_le_iff)
  then show ?thesis
    using u0 by (simp add: fl_pos assms(1) y True u_def [symmetric])
next
  case False
  have y: "0 < y" using assms by simp
  from False binade_mono [OF assms] have "binade x + 1 \<le> binade y" by simp
  then have "(2::real) powi (binade x + 1) \<le> 2 powi (binade y)"
    by (simp add: power_int_increasing)
  with fl_bounds(2) [OF assms(1)] fl_bounds(1) [OF y] show ?thesis by linarith
qed

lemma fl_zero: "fl 0 = 0"
  by (simp add: fl_def)

lemma fl_pos_nonneg: "0 < x \<Longrightarrow> 0 < fl x"
  using fl_bounds(1) [of x] zero_less_power_int [of "2::real" "binade x"] by linarith

lemma fl_mono:
  assumes "x \<le> y"
  shows "fl x \<le> fl y"
proof -
  consider "0 < x" | "x = 0" "0 < y" | "x = 0" "y = 0" | "x < 0" "0 < y" | "x < 0" "y = 0" | "y < 0"
    using assms by linarith
  then show ?thesis
  proof cases
    case 1
    then show ?thesis using fl_mono_pos assms by simp
  next
    case 2
    then show ?thesis using fl_pos_nonneg [of y] by (simp add: fl_zero)
  next
    case 3
    then show ?thesis by simp
  next
    case 4
    then show ?thesis using fl_pos_nonneg [of y] fl_pos_nonneg [of "- x"] by (simp add: fl_minus)
  next
    case 5
    then show ?thesis using fl_pos_nonneg [of "- x"] by (simp add: fl_minus fl_zero)
  next
    case 6
    then have "fl (- y) \<le> fl (- x)" using fl_mono_pos [of "- y" "- x"] assms by simp
    then show ?thesis by (simp add: fl_minus)
  qed
qed


lemma fl_exact_pos:
  assumes "0 < m" "m < 2 ^ 53"
  shows "fl (of_int m * 2 powi e) = of_int m * 2 powi e"
proof -
  define x :: real where "x = of_int m * 2 powi e"
  have x0: "0 < x" using assms(1) by (simp add: x_def)
  define b where "b = binade x"
  have "real_of_int m < real_of_int (2 ^ 53)" using assms(2) by (simp only: of_int_less_iff)
  then have "x < 2 ^ 53 * 2 powi e" by (simp add: x_def)
  also have "\<dots> = 2 powi (53 + e)" by (simp add: power_int_add)
  finally have "2 powi b < (2::real) powi (53 + e)"
    using binade_bounds(1) [OF x0] unfolding b_def by linarith
  then have "b < 53 + e"
    using power_int_increasing [of "53 + e" b "2::real"] by (cases "b < 53 + e") auto
  then have k0: "0 \<le> e - b + 52" by simp
  define k where "k = nat (e - b + 52)"
  have ek: "e = int k + (b - 52)" using k0 by (simp add: k_def)
  have xe: "x = of_int (m * 2 ^ k) * 2 powi (b - 52)"
    unfolding x_def by (subst ek) (simp add: power_int_add)
  have "x / 2 powi (b - 52) = of_int (m * 2 ^ k)"
    unfolding xe by simp
  then have "round_half_even (x / 2 powi (b - 52)) = m * 2 ^ k"
    by (simp only: round_half_even_of_int)
  then have fx: "fl x = of_int (m * 2 ^ k) * 2 powi (b - 52)"
    using x0 by (simp add: fl_pos b_def)
  have "fl x = x" by (rule trans [OF fx xe [symmetric]])
  then show ?thesis unfolding x_def .
qed

lemma fl_exact:
  assumes "\<bar>m\<bar> < 2 ^ 53"
  shows "fl (of_int m * 2 powi e) = of_int m * 2 powi e"
proof -
  consider "0 < m" | "m = 0" | "m < 0" by linarith
  then show ?thesis
  proof cases
    case 1
    then show ?thesis using fl_exact_pos assms by simp
  next
    case 2
    then show ?thesis by (simp add: fl_zero)
  next
    case 3
    then have "fl (of_int (- m) * 2 powi e) = of_int (- m) * 2 powi e"
      using fl_exact_pos [of "- m" e] assms by simp
    then have "fl (- (of_int m * 2 powi e)) = - (of_int m * 2 powi e)" by simp
    then show ?thesis by (simp only: fl_minus neg_equal_iff_equal)
  qed
qed

lemma fl_of_int:
  assumes "\<bar>n\<bar> < 2 ^ 53"
  shows "fl (of_int n) = of_int n"
  using fl_exact [OF assms, of 0] by simp

lemma fl_err_pos:
  assumes "0 < x"
  shows "\<bar>fl x - x\<bar> \<le> x / 2 ^ 53"
proof -
  define u :: real where "u = 2 powi (binade x - 52)"
  have u0: "0 < u" by (simp add: u_def)
  have f: "fl x = of_int (round_half_even (x / u)) * u"
    using assms by (simp add: fl_pos u_def)
  have "fl x - x = (of_int (round_half_even (x / u)) - x / u) * u"
    using u0 by (simp add: f field_simps)
  then have "\<bar>fl x - x\<bar> = \<bar>of_int (round_half_even (x / u)) - x / u\<bar> * u"
    using u0 by (simp add: abs_mult)
  also have "\<dots> \<le> 1 / 2 * u"
    using round_half_even_err [of "x / u"] u0 by (simp only: mult_le_cancel_right_pos)
  also have "\<dots> = 2 powi (binade x) / 2 ^ 53"
    by (simp add: u_def power_int_diff)
  also have "\<dots> \<le> x / 2 ^ 53"
    using binade_bounds(1) [OF assms] by (simp add: divide_right_mono)
  finally show ?thesis .
qed

lemma fl_err: "\<bar>fl x - x\<bar> \<le> \<bar>x\<bar> / 2 ^ 53"
proof -
  consider "0 < x" | "x = 0" | "x < 0" by linarith
  then show ?thesis
  proof cases
    case 1
    then show ?thesis using fl_err_pos [of x] by simp
  next
    case 2
    then show ?thesis by (simp add: fl_zero)
  next
    case 3
    then have "\<bar>fl (- x) - (- x)\<bar> \<le> (- x) / 2 ^ 53" using fl_err_pos [of "- x"] by simp
    then show ?thesis using 3 by (simp add: fl_minus abs_if split: if_splits)
  qed
qed

lemma fl_err_num:
  "x - \<bar>x\<bar> / 9007199254740992 \<le> fl x" "fl x \<le> x + \<bar>x\<bar> / 9007199254740992"
proof -
  have "\<bar>fl x - x\<bar> \<le> \<bar>x\<bar> / 9007199254740992" using fl_err [of x] by simp
  then show "x - \<bar>x\<bar> / 9007199254740992 \<le> fl x" "fl x \<le> x + \<bar>x\<bar> / 9007199254740992"
    by linarith+
qed

lemma fl_2_5: "fl (2 / 5) = 3602879701896397 / 9007199254740992"
  by (simp add: fl_eval)

lemma fl_numeral_int: "fl (of_int n) = of_int n" if "\<bar>n\<bar> < 9007199254740992"
  using fl_of_int [of n] that by simp

lemma fl_dyadic: "fl (of_int m / 2 ^ k) = of_int m / 2 ^ k" if "\<bar>m\<bar> < 9007199254740992"
proof -
  have "fl (of_int m * 2 powi (- int k)) = of_int m * 2 powi (- int k)"
    using fl_exact [of m "- int k"] that by simp
  then show ?thesis by (simp add: power_int_minus field_simps)
qed

lemma gradient_radius_floor:
  assumes "0 \<le> sz" "sz < 2 ^ 31"
  shows "gradient_radius sz = (2 * sz) div 5"
proof -
  define k where "k = (2 * sz) div 5"
  have k0: "0 \<le> k" using assms(1) by (simp add: k_def)
  have k1: "5 * k \<le> 2 * sz" and k2: "2 * sz \<le> 5 * k + 4" by (simp_all add: k_def)
  have kr1: "5 * real_of_int k \<le> 2 * real_of_int sz" using k1 by linarith
  have kr2: "2 * real_of_int sz \<le> 5 * real_of_int k + 4" using k2 by linarith
  have sr: "0 \<le> real_of_int sz" "real_of_int sz < 2147483648" using assms by simp_all
  define x :: real where "x = of_int sz * (3602879701896397 / 9007199254740992)"
  have g: "gradient_radius sz = py_int (fl x)"
    using assms by (simp add: gradient_radius_def int_mul_float_def float_mul_def
        float_of_int_def fl_2_5 fl_numeral_int x_def)
  have lo: "of_int k \<le> x" unfolding x_def using kr1 sr by linarith
  have hi: "x \<le> of_int (8 * k + 7) / 2 ^ 3" unfolding x_def using kr2 sr by simp
  have "k < 2 ^ 31" using k1 assms by simp
  then have kb: "\<bar>k\<bar> < 9007199254740992" "\<bar>8 * k + 7\<bar> < 9007199254740992"
    using k0 by simp_all
  have a: "of_int k \<le> fl x" using fl_mono [OF lo] kb by (simp add: fl_numeral_int)
  have b: "fl x \<le> of_int (8 * k + 7) / 2 ^ 3"
    using fl_mono [OF hi] kb(2) by (simp only: fl_dyadic)
  have "0 \<le> fl x" using a k0 by linarith
  then have "py_int (fl x) = \<lfloor>fl x\<rfloor>" by (simp add: py_int_def)
  moreover have "\<lfloor>fl x\<rfloor> = k"
  proof (rule floor_unique)
    show "of_int k \<le> fl x" by (rule a)
    show "fl x < of_int k + 1" using b by simp
  qed
  ultimately show ?thesis using g by (simp add: k_def)
qed

lemma blend_unfold:
  assumes "\<bar>c0\<bar> < 9007199254740992" "\<bar>c1\<bar> < 9007199254740992"
  shows "blend c0 c1 t = py_int (fl (fl (of_int c0 * t) + fl (of_int c1 * fl (1 - t))))"
  using assms fl_numeral_int [of 1]
  by (simp add: blend_def float_add_def int_mul_float_def float_mul_def int_sub_float_def
      float_sub_def float_of_int_def fl_numeral_int)

lemma fl_unit_interval:
  assumes "0 \<le> x" "x \<le> 1"
  shows "0 \<le> fl x" "fl x \<le> 1"
  using fl_mono [OF assms(1)] fl_mono [OF assms(2)] fl_numeral_int [of 1]
  by (simp_all add: fl_zero)

text \<open>The sum that is rounded last, bracketed by linear expressions.\<close>

lemma blend_sum_bounds:
  fixes c0 c1 t :: real
  assumes c: "0 \<le> c1" "0 \<le> c0" and t: "0 \<le> t" "t \<le> 1"
  defines "S \<equiv> fl (c0 * t) + fl (c1 * fl (1 - t))"
  shows "9007199254740991 * (c0 * t) + 9007199254740990 * (c1 - c1 * t)
           \<le> 9007199254740992 * S"
    and "9007199254740992 * S
           \<le> 9007199254740993 * (c0 * t) + 9007199254740995 * (c1 - c1 * t)"
proof -
  define P where "P = c0 * t"
  define u where "u = fl (1 - t)"
  define Q where "Q = c1 * u"
  define Z where "Z = c1 - c1 * t"
  define Zn where "Zn = Z / 9007199254740992"
  define Wl where "Wl = Z - Zn"
  define Wh where "Wh = Z + Zn"
  have P0: "0 \<le> P" using c t by (simp add: P_def)
  have s0: "0 \<le> 1 - t" "1 - t \<le> 1" using t by simp_all
  have u0: "0 \<le> u" unfolding u_def using fl_unit_interval(1) [OF s0] .
  have Q0: "0 \<le> Q" using c u0 by (simp add: Q_def)
  have "c1 * t \<le> c1 * 1" using c t by (intro mult_left_mono) simp_all
  then have Z0: "0 \<le> Z" unfolding Z_def by linarith
  have Zn0: "0 \<le> Zn" "Zn \<le> Z" using Z0 by (simp_all add: Zn_def)
  have ul: "(1 - t) - (1 - t) / 9007199254740992 \<le> u"
    using fl_err_num(1) [of "1 - t"] s0 by (simp add: u_def)
  have uh: "u \<le> (1 - t) + (1 - t) / 9007199254740992"
    using fl_err_num(2) [of "1 - t"] s0 by (simp add: u_def)
  have "c1 * ((1 - t) - (1 - t) / 9007199254740992) \<le> Q"
    unfolding Q_def using ul c(1) by (rule mult_left_mono)
  then have Ql: "Wl \<le> Q" by (simp add: Wl_def Z_def Zn_def algebra_simps)
  have "Q \<le> c1 * ((1 - t) + (1 - t) / 9007199254740992)"
    unfolding Q_def using uh c(1) by (rule mult_left_mono)
  then have Qh: "Q \<le> Wh" by (simp add: Wh_def Z_def Zn_def algebra_simps)
  have Al: "P - P / 9007199254740992 \<le> fl P" and Ah: "fl P \<le> P + P / 9007199254740992"
    using fl_err_num [of P] P0 by simp_all
  have Bl: "Q - Q / 9007199254740992 \<le> fl Q" and Bh: "fl Q \<le> Q + Q / 9007199254740992"
    using fl_err_num [of Q] Q0 by simp_all
  have S: "S = fl P + fl Q" by (simp add: S_def P_def Q_def u_def)
  have Zn: "Z = 9007199254740992 * Zn" by (simp add: Zn_def)
  have Wl: "Wl = 9007199254740991 * Zn" unfolding Wl_def using Zn by linarith
  have Wh: "Wh = 9007199254740993 * Zn" unfolding Wh_def using Zn by linarith
  have "Wl - Wl / 9007199254740992 \<le> Q - Q / 9007199254740992" using Ql by linarith
  then have "9007199254740991 * P + 9007199254740990 * Z \<le> 9007199254740992 * (fl P + fl Q)"
    using Al Bl Zn Wl Zn0 by argo
  then show "9007199254740991 * (c0 * t) + 9007199254740990 * (c1 - c1 * t)
           \<le> 9007199254740992 * S"
    unfolding S P_def Z_def .
  have "Q + Q / 9007199254740992 \<le> Wh + Wh / 9007199254740992" using Qh by linarith
  then have "9007199254740992 * (fl P + fl Q) \<le> 9007199254740993 * P + 9007199254740995 * Z"
    using Ah Bh Zn Wh Zn0 by argo
  then show "9007199254740992 * S
           \<le> 9007199254740993 * (c0 * t) + 9007199254740995 * (c1 - c1 * t)"
    unfolding S P_def Z_def .
qed

lemma ratio_bounds:
  assumes "1 \<le> i" "i \<le> R" "R < 2 ^ 31"
  shows "1 / 2147483648 \<le> fl (of_int i / of_int R)" "fl (of_int i / of_int R) \<le> 1"
proof -
  have R0: "0 < real_of_int R" using assms by simp
  have "real_of_int R \<le> 2147483648 * real_of_int i" using assms by simp
  then have q1: "1 / 2 ^ 31 \<le> real_of_int i / real_of_int R"
    using R0 by (simp add: field_simps)
  have q2: "real_of_int i / real_of_int R \<le> 1" using assms R0 by simp
  have "fl (of_int 1 / 2 ^ 31) = of_int 1 / 2 ^ 31" by (rule fl_dyadic) simp
  with fl_mono [OF q1] show "1 / 2147483648 \<le> fl (of_int i / of_int R)" by simp
  from fl_mono [OF q2] fl_numeral_int [of 1] show "fl (of_int i / of_int R) \<le> 1" by simp
qed

lemma blend_floor:
  assumes "0 \<le> lo" "\<bar>lo\<bar> < 9007199254740992" "\<bar>2 * hi + 1\<bar> < 9007199254740992"
    and "of_int lo \<le> S" "S \<le> of_int hi + 1 / 2"
  shows "lo \<le> py_int (fl S)" "py_int (fl S) \<le> hi"
proof -
  have a: "of_int lo \<le> fl S" using fl_mono [OF assms(4)] assms(2) by (simp add: fl_numeral_int)
  have "S \<le> of_int (2 * hi + 1) / 2 ^ 1" using assms(5) by simp
  from fl_mono [OF this] have "fl S \<le> of_int (2 * hi + 1) / 2 ^ 1"
    using assms(3) by (simp only: fl_dyadic)
  then have b: "fl S < of_int hi + 1" by simp
  have "0 \<le> fl S" using a assms(1) by linarith
  then have p: "py_int (fl S) = \<lfloor>fl S\<rfloor>" by (simp add: py_int_def)
  show "lo \<le> py_int (fl S)" unfolding p using a by (simp add: le_floor_iff)
  show "py_int (fl S) \<le> hi" unfolding p using b by (simp add: floor_le_iff)
qed

lemma blend_between:
  assumes c: "0 \<le> c1" "c1 < c0" "c0 \<le> 255" and i: "1 \<le> i" "i \<le> R" "R < 2 ^ 31"
  shows "c1 \<le> blend c0 c1 (fl (of_int i / of_int R))"
    and "blend c0 c1 (fl (of_int i / of_int R)) \<le> c0"
proof -
  define t where "t = fl (of_int i / of_int R)"
  define a b :: real where "a = of_int c0" and "b = of_int c1"
  have t1: "1 / 2147483648 \<le> t" and t2: "t \<le> 1"
    unfolding t_def using ratio_bounds [OF i] by simp_all
  have t0: "0 \<le> t" using t1 by linarith
  have ab: "0 \<le> b" "b + 1 \<le> a" "a \<le> 255" "0 \<le> a"
    using c by (simp_all add: a_def b_def)
  define S where "S = fl (a * t) + fl (b * fl (1 - t))"
  note br = blend_sum_bounds [OF ab(1) ab(4) t0 t2, folded S_def]
  define P Y where "P = a * t" and "Y = b * t"
  have "1 * t \<le> (a - b) * t" using ab t0 by (intro mult_right_mono) simp_all
  then have d1: "1 / 2147483648 \<le> P - Y" using t1 by (simp add: P_def Y_def algebra_simps)
  have "(a - b) * t \<le> (a - b) * 1" using ab t2 by (intro mult_left_mono) simp_all
  then have d2: "P - Y \<le> a - b" by (simp add: P_def Y_def algebra_simps)
  have P0: "0 \<le> P" using ab t0 by (simp add: P_def)
  have "a * t \<le> a * 1" using ab t2 by (intro mult_left_mono) simp_all
  then have P1: "P \<le> 255" using ab unfolding P_def by linarith
  have Y0: "0 \<le> Y" using ab t0 by (simp add: Y_def)
  have "b * t \<le> b * 1" using ab t2 by (intro mult_left_mono) simp_all
  then have Y1: "Y \<le> b" unfolding Y_def by linarith
  have lo: "b \<le> S"
    using br(1) d1 P0 P1 Y0 Y1 ab unfolding P_def [symmetric] Y_def [symmetric] by argo
  have hi: "S \<le> a + 1 / 2"
    using br(2) d2 P0 P1 Y0 Y1 ab unfolding P_def [symmetric] Y_def [symmetric] by argo
  have cb: "\<bar>c0\<bar> < 9007199254740992" "\<bar>c1\<bar> < 9007199254740992"
    "\<bar>2 * c0 + 1\<bar> < 9007199254740992" using c by simp_all
  have e: "blend c0 c1 t = py_int (fl S)"
    unfolding S_def a_def b_def by (rule blend_unfold [OF cb(1,2)])
  show "c1 \<le> blend c0 c1 (fl (of_int i / of_int R))"
    unfolding t_def [symmetric] e
    using blend_floor(1) [OF c(1) cb(2) cb(3) lo [unfolded b_def] hi [unfolded a_def]] .
  show "blend c0 c1 (fl (of_int i / of_int R)) \<le> c0"
    unfolding t_def [symmetric] e
    using blend_floor(2) [OF c(1) cb(2) cb(3) lo [unfolded b_def] hi [unfolded a_def]] .
qed

lemma blend_rim:
  assumes "0 \<le> c0" "c0 < 9007199254740992" "\<bar>c1\<bar> < 9007199254740992" "R \<noteq> 0"
  shows "blend c0 c1 (fl (of_int R / of_int R)) = c0"
proof -
  have c: "\<bar>c0\<bar> < 9007199254740992" using assms by simp
  have t: "fl (real_of_int R / real_of_int R) = 1" using assms(4) fl_numeral_int [of 1] by simp
  show ?thesis
    unfolding blend_unfold [OF c assms(3)] t using assms(1) c
    by (simp add: fl_zero fl_numeral_int py_int_def)
qed

lemma blend_blue_small_radius:
  assumes i: "1 \<le> i" "i \<le> R" "R \<le> 93"
  shows "162 \<le> blend 255 161 (fl (of_int i / of_int R))"
proof -
  define t where "t = fl (of_int i / of_int R)"
  have R0: "0 < real_of_int R" using i by simp
  have "real_of_int R \<le> 93 * real_of_int i" using i by simp
  then have q1: "1 / 93 \<le> real_of_int i / real_of_int R"
    using R0 by (simp add: field_simps)
  have t1: "1 / 93 - 1 / 93 / 9007199254740992 \<le> t"
    using fl_mono [OF q1] fl_err_num(1) [of "1 / 93"] unfolding t_def by simp
  have "R < 2 ^ 31" using i by simp
  from ratio_bounds [OF i(1,2) this] have t2: "t \<le> 1" and t0: "0 \<le> t"
    unfolding t_def by simp_all
  define S where "S = fl (255 * t) + fl (161 * fl (1 - t))"
  have br: "9007199254740991 * (255 * t) + 9007199254740990 * (161 - 161 * t)
              \<le> 9007199254740992 * S"
    "9007199254740992 * S
              \<le> 9007199254740993 * (255 * t) + 9007199254740995 * (161 - 161 * t)"
    using blend_sum_bounds [of 161 255 t] t0 t2 unfolding S_def by simp_all
  have lo: "of_int 162 \<le> S" using br(1) t1 t2 by simp
  have hi: "S \<le> of_int 255 + 1 / 2" using br(2) t0 t2 by simp
  have e: "blend 255 161 t = py_int (fl S)"
    unfolding S_def using blend_unfold [of 255 161 t] by simp
  show ?thesis
    unfolding t_def [symmetric] e by (rule blend_floor(1) [OF _ _ _ lo hi]) simp_all
qed

lemma ring_ink_95: "ring_ink (fl (1 / 95)) = (0, 197, 161, 255)"
  by (simp add: ring_ink_def colors_def red_def green_def blue_def blend_def float_eval)


section \<open>The division is never by zero\<close>

lemma gradient_rings_total:
  "i \<le> radius \<Longrightarrow> \<exists>img'. gradient_rings L radius cx cy i img = Inr img'"
proof (induction L radius cx cy i img rule: gradient_rings.induct)
  case (1 L radius cx cy i img)
  show ?case
  proof (cases "i \<le> 0")
    case True
    then show ?thesis by (simp add: gradient_rings.simps)
  next
    case False
    with "1.prems" have nz: "radius \<noteq> 0" by simp
    have div: "int_truediv i radius = Inr (fl (of_int i / of_int radius))"
      using nz by (simp add: int_truediv_def)
    have "i - 1 \<le> radius" using "1.prems" by simp
    from "1.IH" [OF False div this] show ?thesis
      using False div by (subst gradient_rings.simps) simp
  qed
qed

text \<open>
  C5.  For every canvas, whatever its size, the gradient renderer returns normally: the
  division \<^verbatim>\<open>i / radius\<close> is only reached inside the loop, where \<open>1 \<le> i \<le> radius\<close>, so it
  never raises \<^verbatim>\<open>ZeroDivisionError\<close>.  This covers the sizes whose radius is 0: a canvas
  of side 2 has radius 0, the loop body is not entered and the canvas is returned as it
  was.
\<close>

theorem gradient_never_divides_by_zero:
  "(\<exists>img'. draw_circle_gradient L img =
       Inr (img', gradient_radius (width img), width img div 2, width img div 2))
   \<and> draw_circle_gradient L img \<noteq> Inl ZeroDivisionError
   \<and> gradient_radius 2 = 0
   \<and> draw_circle_gradient L (new_image 2 2 background) =
       Inr (new_image 2 2 background, 0, 1, 1)"
proof -
  obtain img' where
    r: "gradient_rings L (gradient_radius (width img)) (width img div 2) (width img div 2)
          (gradient_radius (width img)) img = Inr img'"
    using gradient_rings_total [of "gradient_radius (width img)" "gradient_radius (width img)"]
    by blast
  have a: "draw_circle_gradient L img =
      Inr (img', gradient_radius (width img), width img div 2, width img div 2)"
    using r by (simp add: draw_circle_gradient_def Let_def)
  have z: "gradient_radius 2 = 0"
    by (simp add: gradient_radius_def fl_0_4) (simp add: float_eval)
  have b: "draw_circle_gradient L (new_image 2 2 background) =
      Inr (new_image 2 2 background, 0, 1, 1)"
    by (simp add: draw_circle_gradient_def Let_def new_image_def z gradient_rings.simps)
  from a z b show ?thesis by simp
qed

section \<open>Geometry of the generated canvases\<close>

text \<open>
  C9.  On the three canvases the script produces (sizes 16, 32 and 180) the radius
  \<^verbatim>\<open>int(size * 0.4)\<close> is 6, 12 and 72, which is \<open>\<lfloor>0.4 \<times> size\<rfloor>\<close> and at least 1; the stroke
  width of the first arc, \<^verbatim>\<open>max(1, size // 16)\<close>, is 1, 2 and 11, and the stroke width of
  the second arc, \<^verbatim>\<open>max(2, size // 12)\<close>, is 2, 2 and 15: all integers that are at least 1,
  as the two stroke widths are at every size.
\<close>

theorem geometry_of_generated_sizes:
  "gradient_radius 16 = 6 \<and> gradient_radius 32 = 12 \<and> gradient_radius 180 = 72
   \<and> gradient_radius 16 = \<lfloor>0.4 * 16 :: real\<rfloor>
   \<and> gradient_radius 32 = \<lfloor>0.4 * 32 :: real\<rfloor>
   \<and> gradient_radius 180 = \<lfloor>0.4 * 180 :: real\<rfloor>
   \<and> 1 \<le> gradient_radius 16 \<and> 1 \<le> gradient_radius 32 \<and> 1 \<le> gradient_radius 180
   \<and> accent_width1 16 = 1 \<and> accent_width1 32 = 2 \<and> accent_width1 180 = 11
   \<and> accent_width2 16 = 2 \<and> accent_width2 32 = 2 \<and> accent_width2 180 = 15
   \<and> (\<forall>sz. 1 \<le> accent_width1 sz \<and> 1 \<le> accent_width2 sz)"
proof -
  have "1 \<le> accent_width1 sz \<and> 1 \<le> accent_width2 sz" for sz
    unfolding accent_width1_def accent_width2_def by linarith
  then show ?thesis
    by (simp add: gradient_radius_16 gradient_radius_32 gradient_radius_180)
      (simp add: accent_width1_def accent_width2_def)
qed

section \<open>Colours of the rings\<close>

lemma ring_ink_channels:
  "ring_ink ratio = (blend 46 0 ratio, blend 227 197 ratio, blend 255 161 ratio, 255)"
  by (simp add: ring_ink_def colors_def red_def green_def blue_def)

lemma fl_one: "fl 1 = 1"
  using fl_numeral_int [of 1] by simp

lemma blend_at_one:
  assumes "0 \<le> c0" "c0 < 9007199254740992" "\<bar>c1\<bar> < 9007199254740992"
  shows "blend c0 c1 1 = c0"
  using blend_rim [OF assms, of 1] by (simp add: fl_one)

text \<open>
  C10, as amended.  On a canvas the library can hold (radius below \<open>2\<^sup>3\<^sup>1\<close>), for every ring
  index \<open>1 \<le> i \<le> radius\<close> each blended channel lies between the two brand colours'
  channels, hence in 0..255, and the ring is opaque; the rim ring \<open>i = radius\<close> is painted
  exactly \<^verbatim>\<open>colors[0]\<close>; and the exact second brand colour is not painted when the radius is
  at most 93, which covers the generated sizes (radius 6, 12 and 72).  It is painted by
  the innermost ring of larger discs: truncation takes the blend down to \<^verbatim>\<open>colors[1]\<close>
  although the ratio \<open>1 / radius\<close> is positive.
\<close>

theorem ring_channels_between_brand_colours:
  assumes "1 \<le> i" "i \<le> radius" "radius < 2 ^ 31"
    and "int_truediv i radius = Inr ratio"
    and "ring_ink ratio = (r, g, b, a)"
  shows "min (red (colors ! 0)) (red (colors ! 1)) \<le> r
       \<and> r \<le> max (red (colors ! 0)) (red (colors ! 1))
       \<and> min (green (colors ! 0)) (green (colors ! 1)) \<le> g
       \<and> g \<le> max (green (colors ! 0)) (green (colors ! 1))
       \<and> min (blue (colors ! 0)) (blue (colors ! 1)) \<le> b
       \<and> b \<le> max (blue (colors ! 0)) (blue (colors ! 1))
       \<and> 0 \<le> r \<and> r \<le> 255 \<and> 0 \<le> g \<and> g \<le> 255 \<and> 0 \<le> b \<and> b \<le> 255 \<and> a = 255
       \<and> (i = radius \<longrightarrow> (r, g, b) = colors ! 0)
       \<and> (radius \<le> 93 \<longrightarrow> (r, g, b) \<noteq> colors ! 1)"
proof -
  have nz: "radius \<noteq> 0" using assms(1,2) by simp
  have ratio: "ratio = fl (of_int i / of_int radius)"
    using assms(4) nz by (simp add: int_truediv_def)
  have r: "r = blend 46 0 ratio" and g: "g = blend 227 197 ratio"
    and b: "b = blend 255 161 ratio" and a: "a = 255"
    using assms(5) by (simp_all add: ring_ink_channels)
  have rb: "0 \<le> r" "r \<le> 46"
    unfolding r ratio using blend_between [of 0 46 i radius] assms(1-3) by simp_all
  have gb: "197 \<le> g" "g \<le> 227"
    unfolding g ratio using blend_between [of 197 227 i radius] assms(1-3) by simp_all
  have bb: "161 \<le> b" "b \<le> 255"
    unfolding b ratio using blend_between [of 161 255 i radius] assms(1-3) by simp_all
  have rim: "(r, g, b) = colors ! 0" if "i = radius"
    unfolding r g b ratio that using nz
    by (simp add: fl_one blend_at_one colors_def)
  have inner: "(r, g, b) \<noteq> colors ! 1" if "radius \<le> 93"
    using blend_blue_small_radius [OF assms(1,2) that] unfolding b ratio
    by (simp add: colors_def)
  show ?thesis
    using rb gb bb a rim inner by (simp add: colors_def red_def green_def blue_def)
qed

text \<open>The theorem at the rim ring of the 16 pixel canvas, \<open>i = radius = 6\<close>.\<close>

theorem ring_channels_between_brand_colours_witness:
  "(1::int) \<le> 6 \<and> (6::int) \<le> 6 \<and> (6::int) < 2 ^ 31
   \<and> int_truediv 6 6 = Inr 1 \<and> ring_ink 1 = (46, 227, 255, 255)
   \<and> (46, 227, 255) = colors ! 0 \<and> (46, 227, 255) \<noteq> colors ! 1
   \<and> min (blue (colors ! 0)) (blue (colors ! 1)) \<le> 255"
proof -
  have d: "int_truediv 6 6 = Inr 1"
    by (simp add: int_truediv_def fl_one)
  have k: "ring_ink 1 = (46, 227, 255, 255)"
    by (simp add: ring_ink_channels blend_at_one)
  show ?thesis
    using d k ring_channels_between_brand_colours [of 6 6 1 46 227 255 255, OF _ _ _ d k]
    by (simp add: colors_def)
qed

text \<open>
  As the specification states it, C10 fails on a canvas of side 238: its radius is 95 and the innermost
  ring, of ratio \<open>1 / 95\<close>, is painted exactly \<^verbatim>\<open>colors[1]\<close>.
\<close>

theorem second_colour_painted_at_radius_95:
  "gradient_radius 238 = 95 \<and> int_truediv 1 95 = Inr (fl (1 / 95))
   \<and> ring_ink (fl (1 / 95)) = (0, 197, 161, 255) \<and> colors ! 1 = (0, 197, 161)"
  by (simp add: gradient_radius_floor int_truediv_def ring_ink_95 colors_def)

section \<open>The gradient renderer against its description\<close>

lemma painted_rings_nonpos: "n \<le> 0 \<Longrightarrow> painted_rings L radius cx cy n img = img"
  by (simp add: painted_rings_def)

lemma painted_rings_step:
  assumes "1 \<le> n"
  shows "painted_rings L radius cx cy n img =
         painted_rings L radius cx cy (n - 1)
           (draw_ellipse L img (disc_box cx cy n) (ring_ink (fl (of_int n / of_int radius))))"
proof -
  have "[1..n] = [1..n - 1] @ [n]" using assms by (rule upto_rec2)
  then show ?thesis by (simp add: painted_rings_def)
qed

lemma gradient_rings_eq:
  "n \<le> radius \<Longrightarrow>
   gradient_rings L radius cx cy n img = Inr (painted_rings L radius cx cy n img)"
proof (induction L radius cx cy n img rule: gradient_rings.induct)
  case (1 L radius cx cy i img)
  show ?case
  proof (cases "i \<le> 0")
    case True
    then show ?thesis by (simp add: gradient_rings.simps painted_rings_nonpos)
  next
    case False
    with "1.prems" have nz: "radius \<noteq> 0" by simp
    have div: "int_truediv i radius = Inr (fl (of_int i / of_int radius))"
      using nz by (simp add: int_truediv_def)
    have "i - 1 \<le> radius" using "1.prems" by simp
    from "1.IH" [OF False div this] show ?thesis
      using False div by (subst gradient_rings.simps) (simp add: painted_rings_step)
  qed
qed

lemma draw_circle_gradient_eq:
  "draw_circle_gradient L img =
   Inr (painted_rings L (gradient_radius (width img)) (width img div 2) (width img div 2)
          (gradient_radius (width img)) img,
        gradient_radius (width img), width img div 2, width img div 2)"
  by (simp add: draw_circle_gradient_def Let_def gradient_rings_eq)

lemma spec_ring_ink_eq: "spec_ring_ink i radius = ring_ink (fl (of_int i / of_int radius))"
  by (simp add: spec_ring_ink_def ring_ink_channels blend_unfold Let_def)

lemma floor_0_4: "\<lfloor>0.4 * real_of_int sz\<rfloor> = (2 * sz) div 5"
proof -
  have "0.4 * real_of_int sz = real_of_int (2 * sz) / real_of_int 5" by simp
  then show ?thesis by (simp only: floor_divide_of_int_eq)
qed

text \<open>
  C2.  On a canvas of side \<open>size\<close> (below \<open>2\<^sup>3\<^sup>1\<close>, as every canvas of the library is) the
  renderer returns normally, and what it returns is what the description says: with
  \<open>radius = \<lfloor>0.4 \<times> size\<rfloor>\<close> it has drawn, for \<open>i\<close> from the radius down to 1, an opaque
  filled disc of radius \<open>i\<close> about \<open>(size // 2, size // 2)\<close> in the colour whose channels
  are \<open>trunc (colorA \<times> ratio + colorB \<times> (1 - ratio))\<close> with \<open>ratio = i / radius\<close>, and it
  returns the radius and the centre.
\<close>

theorem gradient_renderer_refines_spec:
  assumes "0 \<le> width img" "width img < 2 ^ 31"
  shows "draw_circle_gradient L img = Inr (spec_gradient L img)"
proof -
  have r: "gradient_radius (width img) = \<lfloor>0.4 * real_of_int (width img)\<rfloor>"
    using gradient_radius_floor [OF assms] by (simp only: floor_0_4)
  show ?thesis
    unfolding draw_circle_gradient_eq r
    by (simp add: spec_gradient_def Let_def painted_rings_def spec_ring_ink_eq)
qed

text \<open>The theorem on the 16 pixel canvas, where the radius is 6 and the centre (8, 8).\<close>

theorem gradient_renderer_refines_spec_witness:
  "0 \<le> width (new_image 16 16 background) \<and> width (new_image 16 16 background) < 2 ^ 31
   \<and> draw_circle_gradient reference_pillow (new_image 16 16 background) =
       Inr (spec_gradient reference_pillow (new_image 16 16 background))
   \<and> snd (spec_gradient reference_pillow (new_image 16 16 background)) = (6, 8, 8)"
proof -
  have a: "0 \<le> width (new_image 16 16 background)" by (simp add: new_image_def)
  have b: "width (new_image 16 16 background) < 2 ^ 31" by (simp add: new_image_def)
  show ?thesis
    using a b gradient_renderer_refines_spec [OF a b, of reference_pillow]
    by (simp add: spec_gradient_def Let_def new_image_def)
qed

section \<open>Pixels of the gradient\<close>

lemma paint_simps:
  "width (paint img cover ink) = width img"
  "height (paint img cover ink) = height img"
  "pixel (paint img cover ink) p = (if in_canvas img p \<and> cover p then ink else pixel img p)"
  "in_canvas (paint img cover ink) p = in_canvas img p"
  by (simp_all add: paint_def in_canvas_def)

lemma draw_simps:
  "width (draw_ellipse L img b ink) = width img"
  "height (draw_ellipse L img b ink) = height img"
  "in_canvas (draw_ellipse L img b ink) p = in_canvas img p"
  "pixel (draw_ellipse L img b ink) p =
     (if in_canvas img p \<and> ellipse_px L b p then ink else pixel img p)"
  "width (draw_arc L img b s e ink w) = width img"
  "height (draw_arc L img b s e ink w) = height img"
  "in_canvas (draw_arc L img b s e ink w) p = in_canvas img p"
  "pixel (draw_arc L img b s e ink w) p =
     (if in_canvas img p \<and> arc_px L b s e w p then ink else pixel img p)"
  by (simp_all add: draw_ellipse_def draw_arc_def paint_simps)

lemma painted_rings_Suc:
  "painted_rings L radius cx cy (int (Suc k)) img =
   painted_rings L radius cx cy (int k)
     (draw_ellipse L img (disc_box cx cy (int (Suc k)))
        (ring_ink (fl (of_int (int (Suc k)) / of_int radius))))"
  using painted_rings_step [of "int (Suc k)" L radius cx cy img] by simp

lemma painted_rings_in_canvas_nat:
  "in_canvas (painted_rings L radius cx cy (int k) img) p = in_canvas img p"
proof (induction k arbitrary: img)
  case 0
  then show ?case by (simp add: painted_rings_nonpos)
next
  case (Suc k)
  show ?case unfolding painted_rings_Suc Suc.IH by (simp add: draw_simps)
qed






section \<open>The reference library meets the assumptions\<close>






section \<open>Centre and rim of the gradient\<close>











section \<open>The canvas of side 16\<close>



lemma render_eq: "render L sz = Inr (favicon_canvas L sz)"
  by (simp add: render_def favicon_canvas_def draw_circle_gradient_eq Let_def new_image_def)


















section \<open>The filesystem\<close>

lemma mkdir_from_post:
  "mkdir_from w pre cs = Inr w' \<Longrightarrow>
   written w' = written w
   \<and> (\<forall>p. nodes w' p = nodes w p
          \<or> (nodes w p = None \<and> nodes w' p = Some Dir
              \<and> (\<exists>n. 1 \<le> n \<and> n \<le> length cs \<and> p = pre @ take n cs)))
   \<and> (\<forall>n. 1 \<le> n \<and> n \<le> length cs \<longrightarrow> nodes w' (pre @ take n cs) = Some Dir)"
proof (induction cs arbitrary: w pre)
  case Nil
  then show ?case by simp
next
  case (Cons c cs)
  let ?p = "pre @ [c]"
  have step: "\<exists>v. mkdir_from v ?p cs = Inr w' \<and> written v = written w
      \<and> nodes v ?p = Some Dir
      \<and> (\<forall>p. nodes v p = nodes w p \<or> (nodes w p = None \<and> nodes v p = Some Dir \<and> p = ?p))"
  proof (cases "nodes w ?p")
    case None
    then show ?thesis using Cons.prems
      by (intro exI [of _ "w\<lparr>nodes := (nodes w)(?p \<mapsto> Dir)\<rparr>"]) simp
  next
    case (Some nd)
    then show ?thesis using Cons.prems
      by (cases nd) (auto intro!: exI [of _ w])
  qed
  then obtain v where v: "mkdir_from v ?p cs = Inr w'" "written v = written w"
    "nodes v ?p = Some Dir"
    "\<forall>p. nodes v p = nodes w p \<or> (nodes w p = None \<and> nodes v p = Some Dir \<and> p = ?p)"
    by blast
  note ih = Cons.IH [OF v(1)]
  have a: "written w' = written w" using ih v(2) by simp
  have b: "nodes w' p = nodes w p
      \<or> (nodes w p = None \<and> nodes w' p = Some Dir
          \<and> (\<exists>n. 1 \<le> n \<and> n \<le> length (c # cs) \<and> p = pre @ take n (c # cs)))" for p
  proof (cases "nodes w' p = nodes v p")
    case True
    show ?thesis
    proof (cases "nodes v p = nodes w p")
      case True
      with \<open>nodes w' p = nodes v p\<close> show ?thesis by simp
    next
      case False
      then have "nodes w p = None" "nodes v p = Some Dir" "p = ?p" using v(4) by blast+
      moreover have "p = pre @ take 1 (c # cs)" using \<open>p = ?p\<close> by simp
      ultimately show ?thesis using True by (intro disjI2 conjI exI [of _ 1]) simp_all
    qed
  next
    case False
    then obtain n where n: "nodes v p = None" "nodes w' p = Some Dir"
      "1 \<le> n" "n \<le> length cs" "p = ?p @ take n cs"
      using ih by blast
    have "nodes w p = None" using v(4) n(1) by metis
    moreover have "p = pre @ take (Suc n) (c # cs)" using n(5) by simp
    ultimately show ?thesis using n(2,4)
      by (intro disjI2 conjI exI [of _ "Suc n"]) simp_all
  qed
  have keep: "nodes w' ?p = Some Dir" using ih v(3) by metis
  have c: "nodes w' (pre @ take n (c # cs)) = Some Dir" if "1 \<le> n" "n \<le> length (c # cs)" for n
  proof (cases n)
    case 0
    then show ?thesis using that by simp
  next
    case (Suc m)
    show ?thesis
    proof (cases m)
      case 0
      then show ?thesis using Suc keep by simp
    next
      case (Suc k)
      have "nodes w' (?p @ take m cs) = Some Dir"
        using ih that Suc \<open>n = Suc m\<close> by simp
      then show ?thesis using \<open>n = Suc m\<close> by simp
    qed
  qed
  show ?case using a b c by blast
qed

lemma mkdir_from_existing:
  "(\<forall>n. 1 \<le> n \<and> n \<le> length cs \<longrightarrow> nodes w (pre @ take n cs) = Some Dir) \<Longrightarrow>
   mkdir_from w pre cs = Inr w"
proof (induction cs arbitrary: pre)
  case Nil
  then show ?case by simp
next
  case (Cons c cs)
  have here: "nodes w (pre @ [c]) = Some Dir" using Cons.prems [rule_format, of 1] by simp
  have "nodes w ((pre @ [c]) @ take n cs) = Some Dir" if "1 \<le> n \<and> n \<le> length cs" for n
    using Cons.prems [rule_format, of "Suc n"] that by simp
  then have "mkdir_from w (pre @ [c]) cs = Inr w" by (intro Cons.IH) blast
  then show ?case using here by simp
qed

lemma mkdir_from_total:
  "(\<forall>n f. 1 \<le> n \<and> n \<le> length cs \<longrightarrow> nodes w (pre @ take n cs) \<noteq> Some (File f)) \<Longrightarrow>
   \<exists>w'. mkdir_from w pre cs = Inr w'"
proof (induction cs arbitrary: w pre)
  case Nil
  then show ?case by simp
next
  case (Cons c cs)
  let ?p = "pre @ [c]"
  have nf: "nodes w ?p \<noteq> Some (File f)" for f
    using Cons.prems [rule_format, of 1 f] by simp
  have deeper: "nodes w (?p @ take n cs) \<noteq> Some (File f)"
    if "1 \<le> n \<and> n \<le> length cs" for n f
    using Cons.prems [rule_format, of "Suc n" f] that by simp
  show ?case
  proof (cases "nodes w ?p")
    case None
    let ?v = "w\<lparr>nodes := (nodes w)(?p \<mapsto> Dir)\<rparr>"
    have "nodes ?v (?p @ take n cs) \<noteq> Some (File f)"
      if "1 \<le> n \<and> n \<le> length cs" for n f
      using deeper [OF that] by simp
    then have "\<exists>w'. mkdir_from ?v ?p cs = Inr w'" by (intro Cons.IH) blast
    then show ?thesis using None by simp
  next
    case (Some nd)
    then have d: "nodes w ?p = Some Dir" using nf by (cases nd) auto
    have "\<exists>w'. mkdir_from w ?p cs = Inr w'" using deeper by (intro Cons.IH) blast
    then show ?thesis using d by simp
  qed
qed


lemma save_file_result:
  assumes "save_file w p f = Inr w'"
  shows "w' = w\<lparr>nodes := (nodes w)(p \<mapsto> File f), written := written w @ [p]\<rparr>"
    and "is_dir w (butlast p)" and "nodes w p \<noteq> Some Dir"
  using assms by (auto simp: save_file_def split: if_splits option.splits node.splits)

lemma save_file_ok:
  assumes "is_dir w (butlast p)" "nodes w p \<noteq> Some Dir"
  shows "save_file w p f =
         Inr (w\<lparr>nodes := (nodes w)(p \<mapsto> File f), written := written w @ [p]\<rparr>)"
  using assms by (auto simp: save_file_def split: option.splits node.splits)

lemma export_loop_targets:
  "export_loop L targets w =
     (case save_file w (logo_dir @ [''favicon-16x16.png'']) (PNG (favicon_canvas L 16)) of
        Inl e \<Rightarrow> Inl e
      | Inr a \<Rightarrow>
          (case save_file a (logo_dir @ [''favicon-32x32.png'']) (PNG (favicon_canvas L 32)) of
             Inl e \<Rightarrow> Inl e
           | Inr b \<Rightarrow>
               save_file b (logo_dir @ [''apple-touch-icon.png''])
                 (PNG (favicon_canvas L 180))))"
  by (simp add: targets_def render_eq split: sum.splits)

lemma mkdir_logo_dir:
  assumes "mkdir_parents_exist_ok w logo_dir = Inr w1"
  shows "written w1 = written w"
    and "\<And>p. nodes w1 p = nodes w p
           \<or> (nodes w p = None \<and> nodes w1 p = Some Dir \<and> length p \<le> length logo_dir)"
    and "\<And>n. 1 \<le> n \<Longrightarrow> n \<le> length logo_dir \<Longrightarrow> nodes w1 (take n logo_dir) = Some Dir"
    and "is_dir w1 logo_dir"
    and "\<And>n. n \<le> length logo_dir \<Longrightarrow> is_dir w1 (take n logo_dir)"
    and "mkdir_parents_exist_ok w1 logo_dir = Inr w1"
proof -
  note post = mkdir_from_post [OF assms [unfolded mkdir_parents_exist_ok_def]]
  show "written w1 = written w" using post by simp
  show "nodes w1 p = nodes w p
      \<or> (nodes w p = None \<and> nodes w1 p = Some Dir \<and> length p \<le> length logo_dir)" for p
    using post by auto
  show d: "nodes w1 (take n logo_dir) = Some Dir" if "1 \<le> n" "n \<le> length logo_dir" for n
    using post that by simp
  show "is_dir w1 logo_dir"
    using d [of "length logo_dir"] by (simp add: is_dir_def logo_dir_def)
  show "is_dir w1 (take n logo_dir)" if "n \<le> length logo_dir" for n
    using d [of n] that by (cases n) (simp_all add: is_dir_def)
  show "mkdir_parents_exist_ok w1 logo_dir = Inr w1"
    unfolding mkdir_parents_exist_ok_def by (rule mkdir_from_existing) (use d in simp)
qed

text \<open>What a run that ends normally has done.\<close>

lemma script_result:
  assumes "script L w = Inr w'"
  shows "\<exists>w1. mkdir_parents_exist_ok w logo_dir = Inr w1
     \<and> w' = w1\<lparr>nodes := (nodes w1)
                  (logo_dir @ [''favicon-16x16.png''] \<mapsto> File (PNG (favicon_canvas L 16)),
                   logo_dir @ [''favicon-32x32.png''] \<mapsto> File (PNG (favicon_canvas L 32)),
                   logo_dir @ [''apple-touch-icon.png''] \<mapsto> File (PNG (favicon_canvas L 180)),
                   logo_dir @ [''favicon.ico''] \<mapsto>
                     File (ICO (resize_img L (favicon_canvas L 32) (16, 16)) ico_sizes)),
                written := written w1 @
                  [logo_dir @ [''favicon-16x16.png''], logo_dir @ [''favicon-32x32.png''],
                   logo_dir @ [''apple-touch-icon.png''], logo_dir @ [''favicon.ico'']]\<rparr>"
proof -
  obtain w1 where m: "mkdir_parents_exist_ok w logo_dir = Inr w1"
    using assms by (auto simp: script_def split: sum.splits)
  obtain w2 where e: "export_loop L targets w1 = Inr w2" and c: "compose_ico L w2 = Inr w'"
    using assms m by (auto simp: script_def split: sum.splits)
  obtain a where a: "save_file w1 (logo_dir @ [''favicon-16x16.png''])
      (PNG (favicon_canvas L 16)) = Inr a"
    using e by (auto simp: export_loop_targets split: sum.splits)
  obtain b where b: "save_file a (logo_dir @ [''favicon-32x32.png''])
      (PNG (favicon_canvas L 32)) = Inr b"
    using e a by (auto simp: export_loop_targets split: sum.splits)
  have w2: "save_file b (logo_dir @ [''apple-touch-icon.png''])
      (PNG (favicon_canvas L 180)) = Inr w2"
    using e a b by (simp add: export_loop_targets)
  note ra = save_file_result(1) [OF a] and rb = save_file_result(1) [OF b]
    and r2 = save_file_result(1) [OF w2]
  have base: "open_image w2 (logo_dir @ [''favicon-32x32.png'']) = Inr (favicon_canvas L 32)"
    unfolding r2 rb by (simp add: open_image_def)
  have i: "save_file w2 (logo_dir @ [''favicon.ico''])
      (ICO (resize_img L (favicon_canvas L 32) (16, 16)) ico_sizes) = Inr w'"
    using c base by (simp add: compose_ico_def ico_sizes_def)
  have "w' = w1\<lparr>nodes := (nodes w1)
                  (logo_dir @ [''favicon-16x16.png''] \<mapsto> File (PNG (favicon_canvas L 16)),
                   logo_dir @ [''favicon-32x32.png''] \<mapsto> File (PNG (favicon_canvas L 32)),
                   logo_dir @ [''apple-touch-icon.png''] \<mapsto> File (PNG (favicon_canvas L 180)),
                   logo_dir @ [''favicon.ico''] \<mapsto>
                     File (ICO (resize_img L (favicon_canvas L 32) (16, 16)) ico_sizes)),
                written := written w1 @
                  [logo_dir @ [''favicon-16x16.png''], logo_dir @ [''favicon-32x32.png''],
                   logo_dir @ [''apple-touch-icon.png''], logo_dir @ [''favicon.ico'']]\<rparr>"
    unfolding save_file_result(1) [OF i] r2 rb ra by simp
  with m show ?thesis by blast
qed

text \<open>When a run ends normally.\<close>

lemma script_succeeds:
  assumes m: "mkdir_parents_exist_ok w logo_dir = Inr w1"
    and d: "nodes w1 (logo_dir @ [''favicon-16x16.png'']) \<noteq> Some Dir"
      "nodes w1 (logo_dir @ [''favicon-32x32.png'']) \<noteq> Some Dir"
      "nodes w1 (logo_dir @ [''apple-touch-icon.png'']) \<noteq> Some Dir"
      "nodes w1 (logo_dir @ [''favicon.ico'']) \<noteq> Some Dir"
  shows "\<exists>w'. script L w = Inr w'"
proof -
  have dir: "is_dir w1 logo_dir" using mkdir_logo_dir(4) [OF m] .
  define a where "a = w1\<lparr>nodes := (nodes w1)(logo_dir @ [''favicon-16x16.png''] \<mapsto>
      File (PNG (favicon_canvas L 16))), written := written w1 @ [logo_dir @ [''favicon-16x16.png'']]\<rparr>"
  define b where "b = a\<lparr>nodes := (nodes a)(logo_dir @ [''favicon-32x32.png''] \<mapsto>
      File (PNG (favicon_canvas L 32))), written := written a @ [logo_dir @ [''favicon-32x32.png'']]\<rparr>"
  define c where "c = b\<lparr>nodes := (nodes b)(logo_dir @ [''apple-touch-icon.png''] \<mapsto>
      File (PNG (favicon_canvas L 180))), written := written b @ [logo_dir @ [''apple-touch-icon.png'']]\<rparr>"
  have da: "is_dir a logo_dir" using dir by (auto simp: a_def is_dir_def)
  have db: "is_dir b logo_dir" using da by (auto simp: b_def is_dir_def)
  have dc: "is_dir c logo_dir" using db by (auto simp: c_def is_dir_def)
  have sa: "save_file w1 (logo_dir @ [''favicon-16x16.png'']) (PNG (favicon_canvas L 16)) = Inr a"
    unfolding a_def by (rule save_file_ok) (use dir d in simp_all)
  have sb: "save_file a (logo_dir @ [''favicon-32x32.png'']) (PNG (favicon_canvas L 32)) = Inr b"
    unfolding b_def by (rule save_file_ok) (use da d in \<open>simp_all add: a_def\<close>)
  have sc: "save_file b (logo_dir @ [''apple-touch-icon.png'']) (PNG (favicon_canvas L 180)) = Inr c"
    unfolding c_def by (rule save_file_ok) (use db d in \<open>simp_all add: a_def b_def\<close>)
  have e: "export_loop L targets w1 = Inr c"
    by (simp add: export_loop_targets sa sb sc)
  have base: "open_image c (logo_dir @ [''favicon-32x32.png'']) = Inr (favicon_canvas L 32)"
    by (simp add: open_image_def c_def b_def)
  have "\<exists>w'. save_file c (logo_dir @ [''favicon.ico''])
      (ICO (resize_img L (favicon_canvas L 32) (16, 16)) ico_sizes) = Inr w'"
    by (intro exI, rule save_file_ok) (use dc d in \<open>simp_all add: a_def b_def c_def\<close>)
  then show ?thesis
    by (simp add: script_def m e compose_ico_def base ico_sizes_def)
qed

lemma mkdir_keeps_children:
  assumes "mkdir_parents_exist_ok w logo_dir = Inr w1"
  shows "nodes w1 (logo_dir @ [name]) = nodes w (logo_dir @ [name])"
  using mkdir_logo_dir(2) [OF assms, of "logo_dir @ [name]"] by auto


lemma files_in_mkdir:
  assumes "mkdir_parents_exist_ok w logo_dir = Inr w1"
  shows "files_in w1 logo_dir = files_in w logo_dir"
  by (simp add: files_in_def mkdir_keeps_children [OF assms])


lemma script_files:
  assumes "script L w = Inr w'"
  shows "files_in w' logo_dir =
         files_in w logo_dir \<union>
           {''favicon-16x16.png'', ''favicon-32x32.png'', ''apple-touch-icon.png'', ''favicon.ico''}"
proof -
  obtain w1 where m: "mkdir_parents_exist_ok w logo_dir = Inr w1"
    and w': "w' = w1\<lparr>nodes := (nodes w1)
                  (logo_dir @ [''favicon-16x16.png''] \<mapsto> File (PNG (favicon_canvas L 16)),
                   logo_dir @ [''favicon-32x32.png''] \<mapsto> File (PNG (favicon_canvas L 32)),
                   logo_dir @ [''apple-touch-icon.png''] \<mapsto> File (PNG (favicon_canvas L 180)),
                   logo_dir @ [''favicon.ico''] \<mapsto>
                     File (ICO (resize_img L (favicon_canvas L 32) (16, 16)) ico_sizes)),
                written := written w1 @
                  [logo_dir @ [''favicon-16x16.png''], logo_dir @ [''favicon-32x32.png''],
                   logo_dir @ [''apple-touch-icon.png''], logo_dir @ [''favicon.ico'']]\<rparr>"
    using script_result [OF assms] by blast
  have "files_in w' logo_dir =
        files_in w1 logo_dir \<union>
           {''favicon-16x16.png'', ''favicon-32x32.png'', ''apple-touch-icon.png'', ''favicon.ico''}"
    unfolding w' files_in_def by auto
  then show ?thesis by (simp only: files_in_mkdir [OF m])
qed


lemma script_from_empty: "\<exists>w'. script L empty_world = Inr w'"
proof -
  have "\<exists>w1. mkdir_from empty_world [] logo_dir = Inr w1"
    by (rule mkdir_from_total) (simp add: empty_world_def)
  then obtain w1 where m: "mkdir_parents_exist_ok empty_world logo_dir = Inr w1"
    unfolding mkdir_parents_exist_ok_def by blast
  have "nodes w1 (logo_dir @ [name]) = None" for name
    unfolding mkdir_keeps_children [OF m] by (simp add: empty_world_def)
  then show ?thesis by (intro script_succeeds [OF m]) simp_all
qed


lemma script_again:
  assumes "script L w = Inr w'"
  shows "mkdir_parents_exist_ok w' logo_dir = Inr w'" and "\<exists>w''. script L w' = Inr w''"
proof -
  obtain w1 where m: "mkdir_parents_exist_ok w logo_dir = Inr w1"
    and w': "w' = w1\<lparr>nodes := (nodes w1)
                  (logo_dir @ [''favicon-16x16.png''] \<mapsto> File (PNG (favicon_canvas L 16)),
                   logo_dir @ [''favicon-32x32.png''] \<mapsto> File (PNG (favicon_canvas L 32)),
                   logo_dir @ [''apple-touch-icon.png''] \<mapsto> File (PNG (favicon_canvas L 180)),
                   logo_dir @ [''favicon.ico''] \<mapsto>
                     File (ICO (resize_img L (favicon_canvas L 32) (16, 16)) ico_sizes)),
                written := written w1 @
                  [logo_dir @ [''favicon-16x16.png''], logo_dir @ [''favicon-32x32.png''],
                   logo_dir @ [''apple-touch-icon.png''], logo_dir @ [''favicon.ico'']]\<rparr>"
    using script_result [OF assms] by blast
  have len: "take n logo_dir \<noteq> logo_dir @ [name]" for n name
  proof
    assume "take n logo_dir = logo_dir @ [name]"
    then have "length (take n logo_dir) = length (logo_dir @ [name])" by (rule arg_cong)
    then show False by simp
  qed
  have "nodes w' (take n logo_dir) = Some Dir" if "1 \<le> n" "n \<le> length logo_dir" for n
    unfolding w' using mkdir_logo_dir(3) [OF m that] len by simp
  then show again: "mkdir_parents_exist_ok w' logo_dir = Inr w'"
    unfolding mkdir_parents_exist_ok_def by (intro mkdir_from_existing) simp
  show "\<exists>w''. script L w' = Inr w''"
    by (rule script_succeeds [OF again]) (simp_all add: w')
qed


section \<open>The exporter\<close>


text \<open>
  C6.  A run that ends normally has processed the three pairs (16, favicon-16x16.png),
  (32, favicon-32x32.png), (180, apple-touch-icon.png) in that order: for each size the
  loop body builds a fresh square canvas filled with the background colour (5, 12, 26),
  runs the gradient renderer and then the accent renderer on it, and the result is the
  PNG saved under the output directory with that file name; the three files are written
  in the order of the list, before the icon bundle.
\<close>


theorem exporter_writes_three_pngs:
  assumes "script L w = Inr w'"
  shows "targets = [(16, ''favicon-16x16.png''), (32, ''favicon-32x32.png''),
                    (180, ''apple-touch-icon.png'')]
       \<and> nodes w' (logo_dir @ [''favicon-16x16.png'']) = Some (File (PNG (favicon_canvas L 16)))
       \<and> nodes w' (logo_dir @ [''favicon-32x32.png'']) = Some (File (PNG (favicon_canvas L 32)))
       \<and> nodes w' (logo_dir @ [''apple-touch-icon.png'']) =
           Some (File (PNG (favicon_canvas L 180)))
       \<and> written w' = written w @
           [logo_dir @ [''favicon-16x16.png''], logo_dir @ [''favicon-32x32.png''],
            logo_dir @ [''apple-touch-icon.png''], logo_dir @ [''favicon.ico'']]
       \<and> (\<forall>sz. render L sz = Inr (favicon_canvas L sz)
             \<and> (\<exists>g radius cx cy.
                  draw_circle_gradient L (new_image sz sz background) = Inr (g, radius, cx, cy)
                  \<and> favicon_canvas L sz = draw_accent L g radius cx cy sz)
             \<and> width (new_image sz sz background) = sz
             \<and> height (new_image sz sz background) = sz
             \<and> (\<forall>p. pixel (new_image sz sz background) p = (5, 12, 26, 255)))"
proof -
  obtain w1 where m: "mkdir_parents_exist_ok w logo_dir = Inr w1"
    and w': "w' = w1\<lparr>nodes := (nodes w1)
                  (logo_dir @ [''favicon-16x16.png''] \<mapsto> File (PNG (favicon_canvas L 16)),
                   logo_dir @ [''favicon-32x32.png''] \<mapsto> File (PNG (favicon_canvas L 32)),
                   logo_dir @ [''apple-touch-icon.png''] \<mapsto> File (PNG (favicon_canvas L 180)),
                   logo_dir @ [''favicon.ico''] \<mapsto>
                     File (ICO (resize_img L (favicon_canvas L 32) (16, 16)) ico_sizes)),
                written := written w1 @
                  [logo_dir @ [''favicon-16x16.png''], logo_dir @ [''favicon-32x32.png''],
                   logo_dir @ [''apple-touch-icon.png''], logo_dir @ [''favicon.ico'']]\<rparr>"
    using script_result [OF assms] by blast
  have body: "\<exists>g radius cx cy.
      draw_circle_gradient L (new_image sz sz background) = Inr (g, radius, cx, cy)
      \<and> favicon_canvas L sz = draw_accent L g radius cx cy sz" for sz
    by (simp add: draw_circle_gradient_eq favicon_canvas_def new_image_def)
  have fresh: "pixel (new_image sz sz background) p = (5, 12, 26, 255)" for sz p
    by (simp add: new_image_def opaque_def background_def red_def green_def blue_def)
  show ?thesis
    unfolding w' using mkdir_logo_dir(1) [OF m] body fresh
    by (simp add: targets_def render_eq new_image_def)
qed


text \<open>The theorem for a run of the script on an empty filesystem.\<close>


theorem exporter_writes_three_pngs_witness:
  "\<exists>w'. script reference_pillow empty_world = Inr w'
     \<and> nodes w' (logo_dir @ [''favicon-16x16.png'']) =
         Some (File (PNG (favicon_canvas reference_pillow 16)))
     \<and> written w' =
         [logo_dir @ [''favicon-16x16.png''], logo_dir @ [''favicon-32x32.png''],
          logo_dir @ [''apple-touch-icon.png''], logo_dir @ [''favicon.ico'']]"
proof -
  obtain w' where r: "script reference_pillow empty_world = Inr w'"
    using script_from_empty by blast
  show ?thesis
    using r exporter_writes_three_pngs [OF r] by (auto simp: empty_world_def)
qed

section \<open>The output directory\<close>

lemma script_steps:
  assumes "script L w = Inr w'"
  shows "\<exists>w1 w2. mkdir_parents_exist_ok w logo_dir = Inr w1
           \<and> export_loop L targets w1 = Inr w2 \<and> compose_ico L w2 = Inr w'"
  using assms by (auto simp: script_def split: sum.splits)

text \<open>
  C7, as amended.  In a run that ends normally the output directory is made first, with
  every missing parent, before any file is written; making it again changes nothing and
  raises nothing, and the same holds whenever the directory and its parents exist
  already.  The run writes exactly four files, \<^verbatim>\<open>favicon-16x16.png\<close>, \<^verbatim>\<open>favicon-32x32.png\<close>,
  \<^verbatim>\<open>apple-touch-icon.png\<close> and \<^verbatim>\<open>favicon.ico\<close>, all in that directory.  Afterwards the
  directory holds these four files and the files it held before the run: exactly four
  when it was missing or held none but these.
\<close>

theorem output_directory_and_files:
  assumes "script L w = Inr w'"
  shows "(\<exists>w1 w2. mkdir_parents_exist_ok w logo_dir = Inr w1
            \<and> written w1 = written w
            \<and> (\<forall>n. n \<le> length logo_dir \<longrightarrow> is_dir w1 (take n logo_dir))
            \<and> mkdir_parents_exist_ok w1 logo_dir = Inr w1
            \<and> export_loop L targets w1 = Inr w2 \<and> compose_ico L w2 = Inr w')
       \<and> mkdir_parents_exist_ok w' logo_dir = Inr w'
       \<and> written w' = written w @
           [logo_dir @ [''favicon-16x16.png''], logo_dir @ [''favicon-32x32.png''],
            logo_dir @ [''apple-touch-icon.png''], logo_dir @ [''favicon.ico'']]
       \<and> files_in w' logo_dir =
           files_in w logo_dir \<union>
             {''favicon-16x16.png'', ''favicon-32x32.png'', ''apple-touch-icon.png'',
              ''favicon.ico''}
       \<and> (files_in w logo_dir \<subseteq>
             {''favicon-16x16.png'', ''favicon-32x32.png'', ''apple-touch-icon.png'',
              ''favicon.ico''}
            \<longrightarrow> files_in w' logo_dir =
             {''favicon-16x16.png'', ''favicon-32x32.png'', ''apple-touch-icon.png'',
              ''favicon.ico''})"
proof -
  obtain w1 w2 where s: "mkdir_parents_exist_ok w logo_dir = Inr w1"
    "export_loop L targets w1 = Inr w2" "compose_ico L w2 = Inr w'"
    using script_steps [OF assms] by blast
  note m = mkdir_logo_dir [OF s(1)]
  have a: "\<exists>w1 w2. mkdir_parents_exist_ok w logo_dir = Inr w1
            \<and> written w1 = written w
            \<and> (\<forall>n. n \<le> length logo_dir \<longrightarrow> is_dir w1 (take n logo_dir))
            \<and> mkdir_parents_exist_ok w1 logo_dir = Inr w1
            \<and> export_loop L targets w1 = Inr w2 \<and> compose_ico L w2 = Inr w'"
    using s m(1) m(5) m(6) by blast
  obtain v where v: "mkdir_parents_exist_ok w logo_dir = Inr v"
    and w': "w' = v\<lparr>nodes := (nodes v)
                  (logo_dir @ [''favicon-16x16.png''] \<mapsto> File (PNG (favicon_canvas L 16)),
                   logo_dir @ [''favicon-32x32.png''] \<mapsto> File (PNG (favicon_canvas L 32)),
                   logo_dir @ [''apple-touch-icon.png''] \<mapsto> File (PNG (favicon_canvas L 180)),
                   logo_dir @ [''favicon.ico''] \<mapsto>
                     File (ICO (resize_img L (favicon_canvas L 32) (16, 16)) ico_sizes)),
                written := written v @
                  [logo_dir @ [''favicon-16x16.png''], logo_dir @ [''favicon-32x32.png''],
                   logo_dir @ [''apple-touch-icon.png''], logo_dir @ [''favicon.ico'']]\<rparr>"
    using script_result [OF assms] by blast
  have b: "written w' = written w @
           [logo_dir @ [''favicon-16x16.png''], logo_dir @ [''favicon-32x32.png''],
            logo_dir @ [''apple-touch-icon.png''], logo_dir @ [''favicon.ico'']]"
    unfolding w' using mkdir_logo_dir(1) [OF v] by simp
  note f = script_files [OF assms]
  have c: "files_in w' logo_dir =
             {''favicon-16x16.png'', ''favicon-32x32.png'', ''apple-touch-icon.png'',
              ''favicon.ico''}"
    if "files_in w logo_dir \<subseteq>
             {''favicon-16x16.png'', ''favicon-32x32.png'', ''apple-touch-icon.png'',
              ''favicon.ico''}"
    unfolding f using that by (rule Un_absorb1)
  show ?thesis
    by (rule conjI [OF a conjI [OF script_again(1) [OF assms] conjI [OF b conjI [OF f impI [OF c]]]]])
qed

text \<open>The theorem for a run on an empty filesystem, where the directory is missing.\<close>

theorem output_directory_and_files_witness:
  "\<exists>w'. script reference_pillow empty_world = Inr w'
     \<and> files_in empty_world logo_dir \<subseteq>
          {''favicon-16x16.png'', ''favicon-32x32.png'', ''apple-touch-icon.png'',
           ''favicon.ico''}
     \<and> is_dir w' logo_dir
     \<and> files_in w' logo_dir =
          {''favicon-16x16.png'', ''favicon-32x32.png'', ''apple-touch-icon.png'',
           ''favicon.ico''}"
proof -
  obtain w' where r: "script reference_pillow empty_world = Inr w'"
    using script_from_empty by blast
  have e: "files_in empty_world logo_dir = {}"
    by (simp add: files_in_def empty_world_def)
  note t = output_directory_and_files [OF r]
  have again: "mkdir_parents_exist_ok w' logo_dir = Inr w'"
    by (rule conjunct1 [OF conjunct2 [OF t]])
  have d: "is_dir w' logo_dir"
    by (rule mkdir_logo_dir(4) [OF again])
  have f: "files_in w' logo_dir =
          {''favicon-16x16.png'', ''favicon-32x32.png'', ''apple-touch-icon.png'',
           ''favicon.ico''}"
    using conjunct1 [OF conjunct2 [OF conjunct2 [OF conjunct2 [OF t]]]] unfolding e by simp
  show ?thesis
    by (rule exI [of _ w']) (simp add: r e d f)
qed

lemma world_with_other_file_dirs:
  assumes "1 \<le> n" "n \<le> length logo_dir"
  shows "nodes world_with_other_file (take n logo_dir) = Some Dir"
proof -
  have "take n logo_dir \<noteq> logo_dir @ [''logo.svg'']"
  proof
    assume "take n logo_dir = logo_dir @ [''logo.svg'']"
    then have "length (take n logo_dir) = length (logo_dir @ [''logo.svg''])" by (rule arg_cong)
    then show False by simp
  qed
  moreover have "take n logo_dir \<noteq> []" using assms by (simp add: logo_dir_def)
  moreover have "take (length (take n logo_dir)) logo_dir = take n logo_dir"
    using assms by simp
  ultimately show ?thesis by (simp add: world_with_other_file_def)
qed

lemma world_with_other_file_children:
  "nodes world_with_other_file (logo_dir @ [name]) =
     (if name = ''logo.svg'' then Some (File (PNG (new_image 1 1 background))) else None)"
  by (simp add: world_with_other_file_def)

text \<open>
  As the specification states it, C7 fails when the output directory holds another file before the
  run: the run ends normally and the directory then holds five files.
\<close>

theorem other_file_stays_in_directory:
  "\<exists>w'. script reference_pillow world_with_other_file = Inr w'
     \<and> files_in w' logo_dir =
          {''logo.svg'', ''favicon-16x16.png'', ''favicon-32x32.png'', ''apple-touch-icon.png'',
           ''favicon.ico''}
     \<and> files_in w' logo_dir \<noteq>
          {''favicon-16x16.png'', ''favicon-32x32.png'', ''apple-touch-icon.png'',
           ''favicon.ico''}"
proof -
  have m: "mkdir_parents_exist_ok world_with_other_file logo_dir = Inr world_with_other_file"
    unfolding mkdir_parents_exist_ok_def
    by (rule mkdir_from_existing) (simp add: world_with_other_file_dirs)
  have "\<exists>w'. script reference_pillow world_with_other_file = Inr w'"
    by (rule script_succeeds [OF m]) (simp_all add: world_with_other_file_children)
  then obtain w' where r: "script reference_pillow world_with_other_file = Inr w'" by blast
  have "files_in world_with_other_file logo_dir = {''logo.svg''}"
    by (auto simp: files_in_def world_with_other_file_children)
  with script_files [OF r] have f: "files_in w' logo_dir =
          {''logo.svg'', ''favicon-16x16.png'', ''favicon-32x32.png'', ''apple-touch-icon.png'',
           ''favicon.ico''}" by (simp add: insert_commute)
  have "''logo.svg'' \<notin> {''favicon-16x16.png'', ''favicon-32x32.png'', ''apple-touch-icon.png'',
           ''favicon.ico''}" by simp
  then have g: "files_in w' logo_dir \<noteq>
          {''favicon-16x16.png'', ''favicon-32x32.png'', ''apple-touch-icon.png'',
           ''favicon.ico''}" unfolding f by (metis insertI1)
  show ?thesis
    by (rule exI [of _ w'], rule conjI [OF r conjI [OF f g]])
qed

section \<open>Two runs in a row\<close>



section \<open>The icon bundle\<close>

text \<open>
  C3 fails on the code.  The script resamples the 32 pixel master to 16, 32 and 64 pixels,
  but it saves only the first of the three, the 16 pixel one, with the three sizes as an
  option; the other two images are dropped.  So the icon writer is handed a 16 by 16
  image: a run on an empty filesystem leaves in \<^verbatim>\<open>favicon.ico\<close> what that writer makes of
  the 16 pixel resample, which, the sizes above 16 being bigger than the image, is one
  frame of 16 by 16.
\<close>

theorem icon_bundle_gets_first_icon_only:
  "(\<exists>w'. script L empty_world = Inr w'
      \<and> nodes w' (logo_dir @ [''favicon.ico'']) =
          Some (File (ICO (resize_img L (favicon_canvas L 32) (16, 16)) ico_sizes)))
   \<and> ico_sizes = [(16, 16), (32, 32), (64, 64)]
   \<and> width (nearest_resize (favicon_canvas reference_pillow 32) (16, 16)) = 16
   \<and> height (nearest_resize (favicon_canvas reference_pillow 32) (16, 16)) = 16
   \<and> ico_frames reference_pillow (nearest_resize (favicon_canvas reference_pillow 32) (16, 16))
        ico_sizes
      = [nearest_resize (favicon_canvas reference_pillow 32) (16, 16)]"
proof -
  obtain w' where r: "script L empty_world = Inr w'"
    using script_from_empty by blast
  obtain v1 where "w' = v1\<lparr>nodes := (nodes v1)
                  (logo_dir @ [''favicon-16x16.png''] \<mapsto> File (PNG (favicon_canvas L 16)),
                   logo_dir @ [''favicon-32x32.png''] \<mapsto> File (PNG (favicon_canvas L 32)),
                   logo_dir @ [''apple-touch-icon.png''] \<mapsto> File (PNG (favicon_canvas L 180)),
                   logo_dir @ [''favicon.ico''] \<mapsto>
                     File (ICO (resize_img L (favicon_canvas L 32) (16, 16)) ico_sizes)),
                written := written v1 @
                  [logo_dir @ [''favicon-16x16.png''], logo_dir @ [''favicon-32x32.png''],
                   logo_dir @ [''apple-touch-icon.png''], logo_dir @ [''favicon.ico'']]\<rparr>"
    using script_result [OF r] by blast
  then have "nodes w' (logo_dir @ [''favicon.ico'']) =
          Some (File (ICO (resize_img L (favicon_canvas L 32) (16, 16)) ico_sizes))"
    by simp
  with r have a: "\<exists>w'. script L empty_world = Inr w'
      \<and> nodes w' (logo_dir @ [''favicon.ico'']) =
          Some (File (ICO (resize_img L (favicon_canvas L 32) (16, 16)) ico_sizes))"
    by blast
  have b: "ico_frames reference_pillow (nearest_resize (favicon_canvas reference_pillow 32) (16, 16))
        ico_sizes
      = [nearest_resize (favicon_canvas reference_pillow 32) (16, 16)]"
    by (simp add: ico_frames_def ico_sizes_def nearest_resize_def)
  show ?thesis
    using a b by (simp add: ico_sizes_def nearest_resize_def)
qed

end
